theory Spec2Isabelle
  imports Main "HOL-Library.Word"
begin

unbundle bit_operations_syntax

section \<open>Data model of buddy-malloc.c\<close>

text \<open>
  The allocator is modelled for an LP64 target: \<open>size_t\<close> and pointers are 64-bit
  words, \<open>sizeof(list_t)\<close> is 16, the \<open>prev\<close> link of a \<open>list_t\<close> lies at offset 0
  and the \<open>next\<close> link at offset 8. All arithmetic on \<open>size_t\<close> wraps modulo \<open>2^64\<close>.
\<close>

type_synonym size_t = "64 word"
type_synonym addr = "64 word"

definition HEADER_SIZE :: size_t where
  "HEADER_SIZE = 8"

definition MIN_ALLOC_LOG2 :: size_t where
  "MIN_ALLOC_LOG2 = 4"

definition MIN_ALLOC :: size_t where
  "MIN_ALLOC = push_bit (unat MIN_ALLOC_LOG2) 1"

definition MAX_ALLOC_LOG2 :: size_t where
  "MAX_ALLOC_LOG2 = 31"

definition MAX_ALLOC :: size_t where
  "MAX_ALLOC = push_bit (unat MAX_ALLOC_LOG2) 1"

definition BUCKET_COUNT :: size_t where
  "BUCKET_COUNT = MAX_ALLOC_LOG2 - MIN_ALLOC_LOG2 + 1"

text \<open>\<open>sizeof(list_t)\<close>: two pointers.\<close>

definition LIST_SIZE :: size_t where
  "LIST_SIZE = 16"

text \<open>
  The global variables of the program, together with the part of the machine they live in.
  \<^item> \<open>mem\<close> is the store of 8-byte cells, indexed by the byte address of the cell. It holds
    the link words of every \<open>list_t\<close> (those of the static array \<open>buckets\<close> and those
    threaded through free blocks) and the block headers. Every access the program makes is
    a whole cell at \<open>base_ptr + 8 * k\<close> or at \<open>buckets + 8 * k\<close>.
  \<^item> \<open>node_is_split\<close> is the static byte array of that name, indexed by byte index. The C
    array has \<open>2^27 / 8\<close> bytes; the model does not bound the index.
  \<^item> \<open>base_ptr\<close> and \<open>max_ptr\<close> are the two static pointers.
  \<^item> \<open>buckets\<close> is the address of the static array \<open>buckets\<close> (fixed by the linker, never
    written by the program); \<open>&buckets[b]\<close> is \<open>bucket_ptr s b\<close>.
  \<^item> \<open>break\<close> is the program break of the host, what \<open>sbrk(0)\<close> returns and what a
    successful \<open>brk\<close> sets.
\<close>

record state =
  mem :: "addr \<Rightarrow> 64 word"
  node_is_split :: "size_t \<Rightarrow> 8 word"
  base_ptr :: addr
  max_ptr :: addr
  buckets :: addr
  break :: addr

definition bucket_ptr :: "state \<Rightarrow> size_t \<Rightarrow> addr" where
  "bucket_ptr s bucket = buckets s + LIST_SIZE * bucket"

text \<open>The three places where \<open>buddy_malloc\<close> returns \<open>NULL\<close>, in source order.\<close>

datatype malloc_error = TooLarge | CommitFailed | NoFreeBlock

text \<open>What the C caller sees: the pointer, or \<open>NULL\<close>.\<close>

fun returned_ptr :: "malloc_error + addr \<Rightarrow> addr" where
  "returned_ptr (Inl e) = 0"
| "returned_ptr (Inr p) = p"

section \<open>The host: brk\<close>

text \<open>
  \<open>brk\<close> is the host's answer to the system call: \<open>brk a\<close> holds when the call
  \<open>brk(a)\<close> succeeds (returns 0), and then the break is \<open>a\<close>. A refused call changes
  nothing.
\<close>

definition update_max_ptr :: "(addr \<Rightarrow> bool) \<Rightarrow> addr \<Rightarrow> state \<Rightarrow> bool \<times> state" where
  "update_max_ptr brk new_value s =
     (if new_value > max_ptr s then
        (if \<not> brk new_value then (False, s)
         else (True, s\<lparr>max_ptr := new_value, break := new_value\<rparr>))
      else (True, s))"

section \<open>Circular doubly-linked lists\<close>

definition list_init :: "addr \<Rightarrow> state \<Rightarrow> state" where
  "list_init list s = s\<lparr>mem := (mem s)(list := list, list + 8 := list)\<rparr>"

definition list_push :: "addr \<Rightarrow> addr \<Rightarrow> state \<Rightarrow> state" where
  "list_push list entry s =
     (let prev = mem s list in
      s\<lparr>mem := (mem s)(entry := prev, entry + 8 := list, prev + 8 := entry, list := entry)\<rparr>)"

definition list_remove :: "addr \<Rightarrow> state \<Rightarrow> state" where
  "list_remove entry s =
     (let prev = mem s entry; next = mem s (entry + 8) in
      s\<lparr>mem := (mem s)(prev + 8 := next, next := prev)\<rparr>)"

definition list_pop :: "addr \<Rightarrow> state \<Rightarrow> addr \<times> state" where
  "list_pop list s =
     (let back = mem s list in
      if back = list then (0, s) else (back, list_remove back s))"

section \<open>Node addressing\<close>

text \<open>
  \<open>1 << bucket\<close> is an \<open>int\<close> shift in C and \<open>MAX_ALLOC_LOG2 - bucket\<close> a \<open>size_t\<close>;
  both are in range for \<open>bucket < 28\<close>. The difference \<open>ptr - base_ptr\<close> is a
  \<open>ptrdiff_t\<close>, not negative for a pointer into the arena, so its right shift is the
  logical one.
\<close>

definition ptr_for_node :: "state \<Rightarrow> size_t \<Rightarrow> size_t \<Rightarrow> addr" where
  "ptr_for_node s index bucket =
     base_ptr s + push_bit (unat (MAX_ALLOC_LOG2 - bucket)) (index - push_bit (unat bucket) 1 + 1)"

definition node_for_ptr :: "state \<Rightarrow> addr \<Rightarrow> size_t \<Rightarrow> size_t" where
  "node_for_ptr s ptr bucket =
     drop_bit (unat (MAX_ALLOC_LOG2 - bucket)) (ptr - base_ptr s) + push_bit (unat bucket) 1 - 1"

section \<open>The split-bit array\<close>

text \<open>
  The C function returns the value of the compound assignment
  \<open>node_is_split[index / 8] ^= 1 << (index % 8)\<close>, which is the new value of the whole
  byte \<open>node_is_split[index / 8]\<close>.
\<close>

definition flip_parent_is_split :: "size_t \<Rightarrow> state \<Rightarrow> 8 word \<times> state" where
  "flip_parent_is_split index s =
     (let index = (index - 1) div 2;
          byte = node_is_split s (index div 8) XOR push_bit (unat (index mod 8)) 1
      in (byte, s\<lparr>node_is_split := (node_is_split s)(index div 8 := byte)\<rparr>))"

text \<open>The split bit of the node with the given index, as stored in the array.\<close>

definition is_split :: "state \<Rightarrow> size_t \<Rightarrow> bool" where
  "is_split s index = bit (node_is_split s (index div 8)) (unat (index mod 8))"

section \<open>Size classes\<close>

text \<open>
  The loop of \<open>bucket_for_request\<close>. When \<open>request\<close> exceeds \<open>2^63\<close> the doubling of
  \<open>size\<close> wraps to 0 and the C loop never exits: the result is \<open>None\<close> then.
\<close>

partial_function (option) bucket_for_request_loop :: "size_t \<Rightarrow> size_t \<Rightarrow> size_t \<Rightarrow> size_t option" where
  "bucket_for_request_loop bucket size' request =
     (if size' < request then bucket_for_request_loop (bucket - 1) (size' * 2) request
      else Some bucket)"

declare bucket_for_request_loop.simps [code]

definition bucket_for_request :: "size_t \<Rightarrow> size_t option" where
  "bucket_for_request request = bucket_for_request_loop (BUCKET_COUNT - 1) MIN_ALLOC request"

section \<open>buddy_malloc\<close>

text \<open>The inner loop that splits the node down to the requested size class.\<close>

function split_loop :: "size_t \<Rightarrow> size_t \<Rightarrow> size_t \<Rightarrow> state \<Rightarrow> state" where
  "split_loop original_bucket i bucket s =
     (if bucket < original_bucket then
        (let i = i * 2 + 1;
             bucket = bucket + 1;
             s = snd (flip_parent_is_split i s);
             s = list_push (bucket_ptr s bucket) (ptr_for_node s (i + 1) bucket) s
         in split_loop original_bucket i bucket s)
      else s)"
  by pat_completeness auto
termination
proof (relation "measure (\<lambda>(original_bucket, i, bucket, s). unat original_bucket - unat bucket)")
  show "wf (measure (\<lambda>(original_bucket, i, bucket, s). unat original_bucket - unat bucket))"
    by simp
next
  fix original_bucket i bucket x xa :: size_t and s xb xc :: state
  assume lt: "bucket < original_bucket" and xa: "xa = bucket + 1"
  from lt have less: "unat bucket < unat original_bucket"
    by (simp add: word_less_nat_alt)
  moreover have "unat original_bucket < 2 ^ 64"
    using unsigned_less [of original_bucket] by simp
  ultimately have "unat bucket + unat (1 :: size_t) < 2 ^ LENGTH(64)"
    by simp
  then have "unat (bucket + 1) = unat bucket + 1"
    by (simp add: unat_add_lem [THEN iffD1])
  with less show "((original_bucket, x, xa, xc), (original_bucket, i, bucket, s))
      \<in> measure (\<lambda>(original_bucket, i, bucket, s). unat original_bucket - unat bucket)"
    using xa by simp
qed

declare split_loop.simps [simp del]

text \<open>
  The body run on the block \<open>ptr\<close> popped from the free list of \<open>bucket\<close>: commit, mark
  the node used, split, write the header.
\<close>

definition take_block :: "(addr \<Rightarrow> bool) \<Rightarrow> size_t \<Rightarrow> size_t \<Rightarrow> size_t \<Rightarrow> addr \<Rightarrow> state
    \<Rightarrow> (malloc_error + addr) \<times> state" where
  "take_block brk request original_bucket bucket ptr s =
     (let size' = push_bit (unat (MAX_ALLOC_LOG2 - bucket)) (1 :: size_t);
          bytes_needed = (if bucket < original_bucket then size' div 2 + LIST_SIZE else size')
      in case update_max_ptr brk (ptr + bytes_needed) s of
           (ok, s) \<Rightarrow>
             if \<not> ok then (Inl CommitFailed, list_push (bucket_ptr s bucket) ptr s)
             else
               (let i = node_for_ptr s ptr bucket;
                    s = (if i \<noteq> 0 then snd (flip_parent_is_split i s) else s);
                    s = split_loop original_bucket i bucket s
                in (Inr (ptr + HEADER_SIZE), s\<lparr>mem := (mem s)(ptr := request)\<rparr>)))"

text \<open>
  The search loop \<open>while (bucket + 1 != 0)\<close>: \<open>bucket--\<close> at bucket 0 wraps to
  \<open>SIZE_MAX\<close>, which ends the loop.
\<close>

function buddy_malloc_loop :: "(addr \<Rightarrow> bool) \<Rightarrow> size_t \<Rightarrow> size_t \<Rightarrow> size_t \<Rightarrow> state
    \<Rightarrow> (malloc_error + addr) \<times> state" where
  "buddy_malloc_loop brk request original_bucket bucket s =
     (if bucket + 1 \<noteq> 0 then
        (case list_pop (bucket_ptr s bucket) s of
           (ptr, s) \<Rightarrow>
             if ptr = 0 then buddy_malloc_loop brk request original_bucket (bucket - 1) s
             else take_block brk request original_bucket bucket ptr s)
      else (Inl NoFreeBlock, s))"
  by pat_completeness auto
termination
proof (relation "measure (\<lambda>(brk, request, original_bucket, bucket, s). unat (bucket + 1))")
  show "wf (measure (\<lambda>(brk, request, original_bucket, bucket, s). unat (bucket + 1)))"
    by simp
next
  fix brk :: "addr \<Rightarrow> bool" and request original_bucket bucket :: size_t and s x :: state
    and xa :: addr and y :: state
  assume nz: "bucket + 1 \<noteq> 0"
  then have "unat bucket < unat (bucket + 1)"
    by (simp add: unatSuc add.commute)
  then show "((brk, request, original_bucket, bucket - 1, y), (brk, request, original_bucket, bucket, s))
      \<in> measure (\<lambda>(brk, request, original_bucket, bucket, s). unat (bucket + 1))"
    by simp
qed

declare buddy_malloc_loop.simps [simp del]

definition buddy_malloc :: "(addr \<Rightarrow> bool) \<Rightarrow> size_t \<Rightarrow> state
    \<Rightarrow> ((malloc_error + addr) \<times> state) option" where
  "buddy_malloc brk request s =
     (if request + HEADER_SIZE > MAX_ALLOC then Some (Inl TooLarge, s)
      else case bucket_for_request (request + HEADER_SIZE) of
             None \<Rightarrow> None
           | Some bucket \<Rightarrow> Some (buddy_malloc_loop brk request bucket bucket s))"

section \<open>buddy_free\<close>

text \<open>The merge loop; it returns the node, its bucket and the state it ends with.\<close>

function buddy_free_loop :: "size_t \<Rightarrow> size_t \<Rightarrow> state \<Rightarrow> size_t \<times> size_t \<times> state" where
  "buddy_free_loop i bucket s =
     (if i \<noteq> 0 then
        (case flip_parent_is_split i s of
           (flag, s) \<Rightarrow>
             if flag \<noteq> 0 then (i, bucket, s)
             else buddy_free_loop ((i - 1) div 2) (bucket - 1)
                    (list_remove (ptr_for_node s (((i - 1) XOR 1) + 1) bucket) s))
      else (i, bucket, s))"
  by pat_completeness auto
termination
proof (relation "measure (\<lambda>(i, bucket, s). unat i)")
  show "wf (measure (\<lambda>(i, bucket, s). unat i))"
    by simp
next
  fix i bucket :: size_t and s :: state and x :: "8 word" and y :: state
  assume nz: "i \<noteq> 0"
  then have "unat (i - 1) < unat i"
    by (simp add: unat_minus_one unat_gt_0)
  moreover have "unat ((i - 1) div 2) \<le> unat (i - 1)"
    by (simp add: unat_div)
  ultimately show "(((i - 1) div 2, bucket - 1,
      list_remove (ptr_for_node y (((i - 1) XOR 1) + 1) bucket) y), (i, bucket, s))
      \<in> measure (\<lambda>(i, bucket, s). unat i)"
    by simp
qed

declare buddy_free_loop.simps [simp del]

definition buddy_free :: "addr \<Rightarrow> state \<Rightarrow> state option" where
  "buddy_free ptr s =
     (let ptr = ptr - HEADER_SIZE in
      case bucket_for_request (mem s ptr + HEADER_SIZE) of
        None \<Rightarrow> None
      | Some bucket \<Rightarrow>
          (case buddy_free_loop (node_for_ptr s ptr bucket) bucket s of
             (i, bucket, s) \<Rightarrow> Some (list_push (bucket_ptr s bucket) (ptr_for_node s i bucket) s)))"

section \<open>buddy_init\<close>

function init_loop :: "size_t \<Rightarrow> state \<Rightarrow> state" where
  "init_loop i s =
     (if i < BUCKET_COUNT then init_loop (i + 1) (list_init (bucket_ptr s i) s) else s)"
  by pat_completeness auto
termination
proof (relation "measure (\<lambda>(i, s). unat BUCKET_COUNT - unat i)")
  show "wf (measure (\<lambda>(i, s). unat BUCKET_COUNT - unat i))"
    by simp
next
  fix i :: size_t and s :: state
  assume lt: "i < BUCKET_COUNT"
  then have less: "unat i < unat BUCKET_COUNT"
    by (simp add: word_less_nat_alt)
  moreover have "unat BUCKET_COUNT < 2 ^ 64"
    using unsigned_less [of BUCKET_COUNT] by simp
  ultimately have "unat i + unat (1 :: size_t) < 2 ^ LENGTH(64)"
    by simp
  then have "unat (i + 1) = unat i + 1"
    by (simp add: unat_add_lem [THEN iffD1])
  with less show "((i + 1, list_init (bucket_ptr s i) s), (i, s))
      \<in> measure (\<lambda>(i, s). unat BUCKET_COUNT - unat i)"
    by simp
qed

declare init_loop.simps [simp del]

text \<open>
  \<open>base_ptr = max_ptr = sbrk(0)\<close>; the result of \<open>update_max_ptr\<close> is not looked at.
  \<open>node_is_split\<close> is not written: the program relies on zero-initialised statics.
\<close>

definition buddy_init :: "(addr \<Rightarrow> bool) \<Rightarrow> state \<Rightarrow> state" where
  "buddy_init brk s =
     (let s = s\<lparr>base_ptr := break s, max_ptr := break s\<rparr>;
          s = snd (update_max_ptr brk (base_ptr s + LIST_SIZE) s);
          s = init_loop 0 s
      in list_push (bucket_ptr s 0) (base_ptr s) s)"

text \<open>
  The program image before \<open>buddy_init\<close>: statics are zero, the array \<open>buckets\<close> sits at
  \<open>bp\<close>, the break is \<open>hb\<close>, and the contents of memory are \<open>m\<close>.
\<close>

definition boot :: "addr \<Rightarrow> addr \<Rightarrow> (addr \<Rightarrow> 64 word) \<Rightarrow> state" where
  "boot bp hb m =
     \<lparr>mem = m, node_is_split = (\<lambda>_. 0), base_ptr = 0, max_ptr = 0, buckets = bp, break = hb\<rparr>"

section \<open>Client programs\<close>

text \<open>
  A client is a sequence of calls. Each call of \<open>buddy_malloc\<close> and \<open>buddy_init\<close> comes
  with the host's \<open>brk\<close> behaviour at that time. \<open>exec\<close> runs the calls in order and
  collects what the calls of \<open>buddy_malloc\<close> returned; it is \<open>None\<close> when a call does not
  return.
\<close>

datatype op = Init "addr \<Rightarrow> bool" | Malloc "addr \<Rightarrow> bool" size_t | Free addr

fun exec :: "op list \<Rightarrow> addr list \<times> state \<Rightarrow> (addr list \<times> state) option" where
  "exec [] (ps, s) = Some (ps, s)"
| "exec (Init brk # ops) (ps, s) = exec ops (ps, buddy_init brk s)"
| "exec (Malloc brk request # ops) (ps, s) =
     (case buddy_malloc brk request s of
        None \<Rightarrow> None
      | Some (r, s') \<Rightarrow> exec ops (ps @ [returned_ptr r], s'))"
| "exec (Free ptr # ops) (ps, s) =
     (case buddy_free ptr s of None \<Rightarrow> None | Some s' \<Rightarrow> exec ops (ps, s'))"

section \<open>Well-formedness of the free lists\<close>

text \<open>
  The links at the back of a circular list with head \<open>list\<close>: the last entry
  \<open>list->prev\<close> is not \<open>NULL\<close>, its \<open>next\<close> link leads to the head, and the \<open>next\<close>
  link of its predecessor leads to it. For an empty list all three say \<open>list->next == list\<close>.
\<close>

definition list_back_linked :: "state \<Rightarrow> addr \<Rightarrow> bool" where
  "list_back_linked s list =
     (let back = mem s list in
      back \<noteq> 0 \<and> mem s (back + 8) = list \<and> mem s (mem s back + 8) = back)"

definition free_lists_linked :: "state \<Rightarrow> bool" where
  "free_lists_linked s = (\<forall>bucket < BUCKET_COUNT. list_back_linked s (bucket_ptr s bucket))"

text \<open>
  \<open>list_seg m p xs q\<close>: following \<open>next\<close> links from \<open>p\<close> visits the entries \<open>xs\<close> in
  order and then reaches \<open>q\<close>, and every \<open>prev\<close> link on the way points back.
  \<open>free_list s bucket xs\<close>: the free list of the bucket holds exactly the entries \<open>xs\<close>,
  front to back.
\<close>

fun list_seg :: "(addr \<Rightarrow> 64 word) \<Rightarrow> addr \<Rightarrow> addr list \<Rightarrow> addr \<Rightarrow> bool" where
  "list_seg m p [] q = (m (p + 8) = q \<and> m q = p)"
| "list_seg m p (x # xs) q = (m (p + 8) = x \<and> m x = p \<and> list_seg m x xs q)"

definition free_list :: "state \<Rightarrow> size_t \<Rightarrow> addr list \<Rightarrow> bool" where
  "free_list s bucket xs =
     (list_seg (mem s) (bucket_ptr s bucket) xs (bucket_ptr s bucket)
      \<and> bucket_ptr s bucket \<notin> set xs \<and> 0 \<notin> set xs \<and> distinct xs)"

text \<open>
  The layout of the process: the static array \<open>buckets\<close> (28 entries of 16 bytes) is
  not at address 0 and lies below the break \<open>hb\<close> found by \<open>buddy_init\<close>, and the
  arena of \<open>2^31\<close> bytes above the break fits into the address space.
\<close>

definition layout_ok :: "addr \<Rightarrow> addr \<Rightarrow> bool" where
  "layout_ok bp hb = (bp \<noteq> 0 \<and> unat bp + 448 \<le> unat hb \<and> unat hb + 2 ^ 31 < 2 ^ 64)"

text \<open>
  A way of writing a memory for symbolic execution: the 56 cells of the array \<open>buckets\<close>
  at \<open>bp\<close> are given by the list \<open>hs\<close>, every other cell by \<open>ar\<close>.
\<close>

definition mem_rep :: "addr \<Rightarrow> 64 word list \<Rightarrow> (addr \<Rightarrow> 64 word) \<Rightarrow> addr \<Rightarrow> 64 word" where
  "mem_rep bp hs ar =
     (\<lambda>a. if a - bp < 448 \<and> (a - bp) mod 8 = 0 then hs ! unat ((a - bp) div 8) else ar a)"

section \<open>The split-bit array: what a flip changes\<close>

lemma unat_mod8_less: "unat ((p :: size_t) mod 8) < 8"
  by (simp add: unat_mod)

lemma flip_parent_is_split_fields:
  "mem (snd (flip_parent_is_split i s)) = mem s"
  "base_ptr (snd (flip_parent_is_split i s)) = base_ptr s"
  "max_ptr (snd (flip_parent_is_split i s)) = max_ptr s"
  "buckets (snd (flip_parent_is_split i s)) = buckets s"
  "break (snd (flip_parent_is_split i s)) = break s"
  by (simp_all add: flip_parent_is_split_def Let_def)

lemma flip_parent_is_split_byte:
  "node_is_split (snd (flip_parent_is_split i s)) k =
     (if k = (i - 1) div 2 div 8
      then node_is_split s k XOR push_bit (unat ((i - 1) div 2 mod 8)) 1
      else node_is_split s k)"
  by (simp add: flip_parent_is_split_def Let_def)

lemma flip_parent_is_split_flag:
  "fst (flip_parent_is_split i s) =
     node_is_split (snd (flip_parent_is_split i s)) ((i - 1) div 2 div 8)"
  by (simp add: flip_parent_is_split_def Let_def)

lemma flip_parent_is_split_bit:
  "bit (node_is_split (snd (flip_parent_is_split i s)) k) j =
     (bit (node_is_split s k) j \<noteq> (k = (i - 1) div 2 div 8 \<and> j = unat ((i - 1) div 2 mod 8)))"
  using unat_mod8_less [of "(i - 1) div 2"]
  by (auto simp: flip_parent_is_split_byte bit_xor_iff bit_exp_iff)

lemma node_index_eqI:
  "(n :: size_t) div 8 = p div 8 \<Longrightarrow> unat (n mod 8) = unat (p mod 8) \<Longrightarrow> n = p"
  by (metis word_mod_div_equality word_unat_eq_iff)

lemma is_split_flip:
  "is_split (snd (flip_parent_is_split i s)) n = (is_split s n \<noteq> (n = (i - 1) div 2))"
  by (auto simp: is_split_def flip_parent_is_split_bit dest: node_index_eqI)

lemma parent_byte_in_array:
  assumes "i \<noteq> 0" "i < 2 ^ 28 - 1"
  shows "(i - 1) div 2 div 8 < (2 ^ 24 :: size_t)"
proof -
  from assms(2) have "unat i < 2 ^ 28 - 1"
    by (simp add: word_less_nat_alt)
  moreover from assms(1) have "unat (i - 1) = unat i - 1"
    by (simp add: unat_minus_one)
  ultimately have "unat ((i - 1) div 2 div 8) < 2 ^ 24"
    by (simp add: unat_div)
  then show ?thesis
    by (simp add: word_less_nat_alt)
qed

text \<open>
  C10. For a node index \<open>i > 0\<close> of the tree (\<open>i < 2^28 - 1\<close>),
  \<open>flip_parent_is_split(i)\<close> writes inside the array \<open>node_is_split\<close>, inverts the
  bit of node \<open>(i - 1) / 2\<close> and no other bit of the array, and leaves the free lists
  (all of memory), \<open>base_ptr\<close>, \<open>max_ptr\<close> and the rest of the state as they were.
\<close>

theorem flip_parent_is_split_frame:
  assumes "i \<noteq> 0" and "i < 2 ^ 28 - 1"
  shows "(i - 1) div 2 div 8 < (2 ^ 24 :: size_t)
    \<and> (\<forall>k j. bit (node_is_split (snd (flip_parent_is_split i s)) k) j =
          (bit (node_is_split s k) j \<noteq> (k = (i - 1) div 2 div 8 \<and> j = unat ((i - 1) div 2 mod 8))))
    \<and> (\<forall>n. is_split (snd (flip_parent_is_split i s)) n = (is_split s n \<noteq> (n = (i - 1) div 2)))
    \<and> snd (flip_parent_is_split i s) = s\<lparr>node_is_split := node_is_split (snd (flip_parent_is_split i s))\<rparr>"
proof (intro conjI allI)
  show "(i - 1) div 2 div 8 < (2 ^ 24 :: size_t)"
    using assms by (rule parent_byte_in_array)
  show "bit (node_is_split (snd (flip_parent_is_split i s)) k) j =
          (bit (node_is_split s k) j \<noteq> (k = (i - 1) div 2 div 8 \<and> j = unat ((i - 1) div 2 mod 8)))" for k j
    by (rule flip_parent_is_split_bit)
  show "is_split (snd (flip_parent_is_split i s)) n = (is_split s n \<noteq> (n = (i - 1) div 2))" for n
    by (rule is_split_flip)
  show "snd (flip_parent_is_split i s) = s\<lparr>node_is_split := node_is_split (snd (flip_parent_is_split i s))\<rparr>"
    by (simp add: flip_parent_is_split_def Let_def)
qed

theorem flip_parent_is_split_frame_witness:
  "(8 :: size_t) \<noteq> 0 \<and> (8 :: size_t) < 2 ^ 28 - 1
    \<and> is_split (snd (flip_parent_is_split 8 (boot 0x1000 0x100000 (\<lambda>_. 0)))) 3
    \<and> \<not> is_split (snd (flip_parent_is_split 8 (boot 0x1000 0x100000 (\<lambda>_. 0)))) 4
    \<and> mem (snd (flip_parent_is_split 8 (boot 0x1000 0x100000 (\<lambda>_. 0)))) = (\<lambda>_. 0)"
proof -
  have h1: "(8 :: size_t) \<noteq> 0" and h2: "(8 :: size_t) < 2 ^ 28 - 1"
    by simp_all
  have b: "\<not> is_split (boot 0x1000 0x100000 (\<lambda>_. 0)) n" for n
    by (simp add: is_split_def boot_def)
  from flip_parent_is_split_frame [OF h1 h2, of "boot 0x1000 0x100000 (\<lambda>_. 0)"]
  have f: "\<forall>n. is_split (snd (flip_parent_is_split 8 (boot 0x1000 0x100000 (\<lambda>_. 0)))) n
            = (is_split (boot 0x1000 0x100000 (\<lambda>_. 0)) n \<noteq> (n = (8 - 1) div 2))"
    and g: "snd (flip_parent_is_split 8 (boot 0x1000 0x100000 (\<lambda>_. 0)))
            = (boot 0x1000 0x100000 (\<lambda>_. 0))\<lparr>node_is_split :=
                node_is_split (snd (flip_parent_is_split 8 (boot 0x1000 0x100000 (\<lambda>_. 0))))\<rparr>"
    by blast+
  have m: "mem (snd (flip_parent_is_split 8 (boot 0x1000 0x100000 (\<lambda>_. 0)))) = (\<lambda>_. 0)"
    by (subst g) (simp add: boot_def)
  from f b m h1 h2 show ?thesis
    by simp
qed


section \<open>Frame lemmas\<close>

lemma list_push_fields:
  "node_is_split (list_push l e s) = node_is_split s"
  "base_ptr (list_push l e s) = base_ptr s"
  "max_ptr (list_push l e s) = max_ptr s"
  "buckets (list_push l e s) = buckets s"
  "break (list_push l e s) = break s"
  by (simp_all add: list_push_def Let_def)

lemma list_remove_fields:
  "node_is_split (list_remove e s) = node_is_split s"
  "base_ptr (list_remove e s) = base_ptr s"
  "max_ptr (list_remove e s) = max_ptr s"
  "buckets (list_remove e s) = buckets s"
  "break (list_remove e s) = break s"
  by (simp_all add: list_remove_def Let_def)

lemma list_init_fields:
  "node_is_split (list_init l s) = node_is_split s"
  "base_ptr (list_init l s) = base_ptr s"
  "max_ptr (list_init l s) = max_ptr s"
  "buckets (list_init l s) = buckets s"
  "break (list_init l s) = break s"
  by (simp_all add: list_init_def)

lemma list_pop_fields:
  "node_is_split (snd (list_pop l s)) = node_is_split s"
  "base_ptr (snd (list_pop l s)) = base_ptr s"
  "max_ptr (snd (list_pop l s)) = max_ptr s"
  "buckets (snd (list_pop l s)) = buckets s"
  "break (snd (list_pop l s)) = break s"
  by (simp_all add: list_pop_def Let_def list_remove_fields)

lemma bucket_ptr_cong: "buckets s' = buckets s \<Longrightarrow> bucket_ptr s' b = bucket_ptr s b"
  by (simp add: bucket_ptr_def)

lemma split_loop_fields:
  "base_ptr (split_loop ob i bucket s) = base_ptr s
   \<and> max_ptr (split_loop ob i bucket s) = max_ptr s
   \<and> buckets (split_loop ob i bucket s) = buckets s
   \<and> break (split_loop ob i bucket s) = break s"
proof (induction ob i bucket s rule: split_loop.induct)
  case (1 ob i bucket s)
  show ?case
  proof (cases "bucket < ob")
    case True
    with "1.IH" [OF True refl refl refl refl] show ?thesis
      by (subst (1 2 3 4) split_loop.simps)
         (simp add: Let_def list_push_fields flip_parent_is_split_fields)
  next
    case False
    then show ?thesis
      by (subst (1 2 3 4) split_loop.simps) simp
  qed
qed

lemma buddy_free_loop_fields:
  "base_ptr (snd (snd (buddy_free_loop i bucket s))) = base_ptr s
   \<and> max_ptr (snd (snd (buddy_free_loop i bucket s))) = max_ptr s
   \<and> buckets (snd (snd (buddy_free_loop i bucket s))) = buckets s
   \<and> break (snd (snd (buddy_free_loop i bucket s))) = break s"
proof (induction i bucket s rule: buddy_free_loop.induct)
  case (1 i bucket s)
  show ?case
  proof (cases "i \<noteq> 0 \<and> fst (flip_parent_is_split i s) = 0")
    case True
    then have nz: "i \<noteq> 0" and z: "\<not> fst (flip_parent_is_split i s) \<noteq> 0"
      by simp_all
    from "1.IH" [OF nz prod.collapse z] True show ?thesis
      by (subst (1 2 3 4) buddy_free_loop.simps)
         (simp add: split_beta list_remove_fields flip_parent_is_split_fields)
  next
    case False
    then show ?thesis
      by (subst (1 2 3 4) buddy_free_loop.simps)
         (auto simp: split_beta flip_parent_is_split_fields)
  qed
qed

lemma init_loop_fields:
  "base_ptr (init_loop i s) = base_ptr s
   \<and> max_ptr (init_loop i s) = max_ptr s
   \<and> buckets (init_loop i s) = buckets s
   \<and> break (init_loop i s) = break s
   \<and> node_is_split (init_loop i s) = node_is_split s"
proof (induction i s rule: init_loop.induct)
  case (1 i s)
  show ?case
  proof (cases "i < BUCKET_COUNT")
    case True
    with "1.IH" [OF True] show ?thesis
      by (subst (1 2 3 4 5) init_loop.simps) (simp add: list_init_fields)
  next
    case False
    then show ?thesis
      by (subst (1 2 3 4 5) init_loop.simps) simp
  qed
qed


section \<open>The high-water mark\<close>

lemma update_max_ptr_fields:
  "mem (snd (update_max_ptr brk a s)) = mem s"
  "node_is_split (snd (update_max_ptr brk a s)) = node_is_split s"
  "base_ptr (snd (update_max_ptr brk a s)) = base_ptr s"
  "buckets (snd (update_max_ptr brk a s)) = buckets s"
  by (simp_all add: update_max_ptr_def)

lemma update_max_ptr_refused:
  "\<not> fst (update_max_ptr brk a s) \<Longrightarrow> snd (update_max_ptr brk a s) = s \<and> max_ptr s < a \<and> \<not> brk a"
  by (simp add: update_max_ptr_def split: if_splits)

lemma update_max_ptr_mono:
  "max_ptr s \<le> max_ptr (snd (update_max_ptr brk a s))"
  by (auto simp: update_max_ptr_def)

lemma update_max_ptr_committed:
  "max_ptr s \<le> break s \<Longrightarrow>
     max_ptr (snd (update_max_ptr brk a s)) \<le> break (snd (update_max_ptr brk a s))"
  by (simp add: update_max_ptr_def)

lemma take_block_hwm:
  assumes "take_block brk request ob bucket ptr s = (r, s')"
  shows "max_ptr s' = max_ptr (snd (update_max_ptr brk
           (ptr + (if bucket < ob
                   then push_bit (unat (MAX_ALLOC_LOG2 - bucket)) 1 div 2 + LIST_SIZE
                   else push_bit (unat (MAX_ALLOC_LOG2 - bucket)) 1)) s))
       \<and> break s' = break (snd (update_max_ptr brk
           (ptr + (if bucket < ob
                   then push_bit (unat (MAX_ALLOC_LOG2 - bucket)) 1 div 2 + LIST_SIZE
                   else push_bit (unat (MAX_ALLOC_LOG2 - bucket)) 1)) s))"
  using assms
  by (auto simp: take_block_def Let_def split_beta list_push_fields split_loop_fields
        flip_parent_is_split_fields split: if_splits)

lemma take_block_mono:
  assumes "take_block brk request ob bucket ptr s = (r, s')"
  shows "max_ptr s \<le> max_ptr s' \<and> (max_ptr s \<le> break s \<longrightarrow> max_ptr s' \<le> break s')"
  using take_block_hwm [OF assms] update_max_ptr_mono update_max_ptr_committed
  by metis

lemma buddy_malloc_loop_mono:
  "buddy_malloc_loop brk request ob bucket s = (r, s') \<Longrightarrow>
     max_ptr s \<le> max_ptr s' \<and> (max_ptr s \<le> break s \<longrightarrow> max_ptr s' \<le> break s')"
proof (induction brk request ob bucket s rule: buddy_malloc_loop.induct)
  case (1 brk request ob bucket s)
  let ?l = "bucket_ptr s bucket"
  show ?case
  proof (cases "bucket + 1 \<noteq> 0")
    case False
    with "1.prems" show ?thesis
      by (subst (asm) buddy_malloc_loop.simps) simp
  next
    case nz: True
    show ?thesis
    proof (cases "fst (list_pop ?l s) = 0")
      case True
      with nz "1.prems"
      have "buddy_malloc_loop brk request ob (bucket - 1) (snd (list_pop ?l s)) = (r, s')"
        by (subst (asm) buddy_malloc_loop.simps) (simp add: split_beta)
      from "1.IH" [OF nz prod.collapse True this] show ?thesis
        by (simp add: list_pop_fields)
    next
      case False
      with nz "1.prems"
      have "take_block brk request ob bucket (fst (list_pop ?l s)) (snd (list_pop ?l s)) = (r, s')"
        by (subst (asm) buddy_malloc_loop.simps) (simp add: split_beta)
      from take_block_mono [OF this] show ?thesis
        by (simp add: list_pop_fields)
    qed
  qed
qed

lemma buddy_malloc_mono:
  assumes "buddy_malloc brk request s = Some (r, s')"
  shows "max_ptr s \<le> max_ptr s' \<and> (max_ptr s \<le> break s \<longrightarrow> max_ptr s' \<le> break s')"
  using assms buddy_malloc_loop_mono
  by (fastforce simp: buddy_malloc_def split: if_splits option.splits)

lemma buddy_free_hwm:
  assumes "buddy_free ptr s = Some s'"
  shows "max_ptr s' = max_ptr s \<and> break s' = break s"
  using assms buddy_free_loop_fields
  by (auto simp: buddy_free_def Let_def split_beta list_push_fields split: option.splits)

lemma buddy_init_mono:
  assumes "max_ptr s \<le> break s"
  shows "max_ptr s \<le> max_ptr (buddy_init brk s)
    \<and> max_ptr (buddy_init brk s) \<le> break (buddy_init brk s)"
proof -
  let ?s1 = "s\<lparr>base_ptr := break s, max_ptr := break s\<rparr>"
  let ?s2 = "snd (update_max_ptr brk (base_ptr ?s1 + LIST_SIZE) ?s1)"
  have eq: "max_ptr (buddy_init brk s) = max_ptr ?s2" "break (buddy_init brk s) = break ?s2"
    by (simp_all add: buddy_init_def Let_def list_push_fields init_loop_fields)
  have "max_ptr ?s1 \<le> max_ptr ?s2"
    by (rule update_max_ptr_mono)
  moreover have "max_ptr ?s2 \<le> break ?s2"
    by (rule update_max_ptr_committed) simp
  ultimately show ?thesis
    using assms eq by simp
qed

lemma exec_mono:
  "exec ops (ps, s) = Some (ps', s') \<Longrightarrow> max_ptr s \<le> break s \<Longrightarrow>
     max_ptr s \<le> max_ptr s' \<and> max_ptr s' \<le> break s'"
proof (induction ops "(ps, s)" arbitrary: ps s rule: exec.induct)
  case (1 ps s)
  then show ?case by simp
next
  case (2 brk ops ps s)
  from "2.prems"(1) have e: "exec ops (ps, buddy_init brk s) = Some (ps', s')"
    by simp
  from buddy_init_mono [OF "2.prems"(2), of brk]
  have "max_ptr s \<le> max_ptr (buddy_init brk s)"
    "max_ptr (buddy_init brk s) \<le> break (buddy_init brk s)" by simp_all
  with "2.hyps" [OF e] show ?case by (auto intro: order_trans)
next
  case (3 brk request ops ps s)
  then obtain r s1 where m: "buddy_malloc brk request s = Some (r, s1)"
    and e: "exec ops (ps @ [returned_ptr r], s1) = Some (ps', s')"
    by (auto split: option.splits)
  from buddy_malloc_mono [OF m] "3.prems"(2)
  have "max_ptr s \<le> max_ptr s1" "max_ptr s1 \<le> break s1" by simp_all
  with "3.hyps" [OF m refl e] show ?case by (auto intro: order_trans)
next
  case (4 ptr ops ps s)
  then obtain s1 where f: "buddy_free ptr s = Some s1"
    and e: "exec ops (ps, s1) = Some (ps', s')"
    by (auto split: option.splits)
  from buddy_free_hwm [OF f] "4.prems"(2)
  have "max_ptr s \<le> max_ptr s1" "max_ptr s1 \<le> break s1" by simp_all
  with "4.hyps" [OF f e] show ?case by (auto intro: order_trans)
qed


section \<open>Size classes: the loop returns\<close>

lemma bucket_for_request_loop_returns:
  assumes "request \<le> 2 ^ 31" "n \<le> 27"
  shows "\<exists>b. bucket_for_request_loop (of_nat n) (2 ^ (31 - n)) request = Some b \<and> b \<le> of_nat n"
  using assms(2)
proof (induction n)
  case 0
  from assms(1) have "\<not> (2 ^ 31 :: size_t) < request"
    by (simp add: not_less)
  then show ?case
    by (subst bucket_for_request_loop.simps) simp
next
  case (Suc n)
  then have n: "n \<le> 27" "n < 27"
    by simp_all
  from Suc.IH [OF n(1)] obtain b where
    b: "bucket_for_request_loop (of_nat n) (2 ^ (31 - n)) request = Some b" "b \<le> of_nat n"
    by blast
  have pow: "(2 :: size_t) ^ (31 - Suc n) * 2 = 2 ^ (31 - n)"
  proof -
    from n have "31 - n = Suc (31 - Suc n)"
      by simp
    then show ?thesis
      by (metis power_Suc mult.commute)
  qed
  have le: "(of_nat n :: size_t) \<le> of_nat (Suc n)"
    using n by (simp add: word_of_nat_less_eq_iff take_bit_nat_eq_self del: of_nat_Suc)
  show ?case
  proof (cases "(2 :: size_t) ^ (31 - Suc n) < request")
    case True
    with b pow le show ?thesis
      by (subst bucket_for_request_loop.simps) (auto intro: order_trans)
  next
    case False
    then show ?thesis
      by (subst bucket_for_request_loop.simps) simp
  qed
qed

lemma bucket_for_request_returns:
  assumes "request \<le> MAX_ALLOC"
  shows "\<exists>b. bucket_for_request request = Some b \<and> b < BUCKET_COUNT"
proof -
  from assms have "request \<le> 2 ^ 31"
    by (simp add: MAX_ALLOC_def MAX_ALLOC_LOG2_def)
  from bucket_for_request_loop_returns [OF this, of 27]
  obtain b where "bucket_for_request_loop 27 16 request = Some b" "b \<le> 27"
    by auto
  moreover from \<open>b \<le> 27\<close> have "b < 28"
    by (simp add: word_le_nat_alt word_less_nat_alt)
  ultimately show ?thesis
    by (auto simp: bucket_for_request_def BUCKET_COUNT_def MIN_ALLOC_def MAX_ALLOC_LOG2_def
          MIN_ALLOC_LOG2_def)
qed

lemma buddy_malloc_returns:
  "\<exists>r s'. buddy_malloc brk request s = Some (r, s')"
proof (cases "request + HEADER_SIZE > MAX_ALLOC")
  case True
  then show ?thesis
    by (simp add: buddy_malloc_def)
next
  case False
  then have "request + HEADER_SIZE \<le> MAX_ALLOC"
    by (simp add: not_less)
  from bucket_for_request_returns [OF this] False show ?thesis
    by (auto simp: buddy_malloc_def intro: prod.exhaust)
qed


section \<open>The search for a free block\<close>

lemma bucket_pred:
  assumes "(bucket :: size_t) \<noteq> 0"
  shows "unat (bucket - 1) = unat bucket - 1"
    and "c \<le> bucket \<longleftrightarrow> c \<le> bucket - 1 \<or> c = bucket"
proof -
  from assms show u: "unat (bucket - 1) = unat bucket - 1"
    by (simp add: unat_minus_one)
  from assms have "0 < unat bucket"
    by (simp add: unat_gt_0)
  with u show "c \<le> bucket \<longleftrightarrow> c \<le> bucket - 1 \<or> c = bucket"
    by (auto simp: word_le_nat_alt word_unat_eq_iff)
qed

lemma bucket_succ_nonzero:
  assumes "bucket < BUCKET_COUNT"
  shows "bucket + 1 \<noteq> 0"
proof
  assume "bucket + 1 = 0"
  then have "bucket = - 1"
    by (simp add: eq_neg_iff_add_eq_0)
  with assms show False
    by (simp add: BUCKET_COUNT_def MAX_ALLOC_LOG2_def MIN_ALLOC_LOG2_def)
qed

lemma buddy_malloc_loop_step:
  "buddy_malloc_loop brk request ob bucket s =
     (if bucket + 1 \<noteq> 0 then
        (if mem s (bucket_ptr s bucket) = bucket_ptr s bucket
         then buddy_malloc_loop brk request ob (bucket - 1) s
         else if mem s (bucket_ptr s bucket) = 0
         then buddy_malloc_loop brk request ob (bucket - 1) (list_remove 0 s)
         else take_block brk request ob bucket (mem s (bucket_ptr s bucket))
                (list_remove (mem s (bucket_ptr s bucket)) s))
      else (Inl NoFreeBlock, s))"
  by (subst buddy_malloc_loop.simps) (simp add: list_pop_def Let_def)

lemma buddy_malloc_loop_search:
  assumes "\<forall>b<BUCKET_COUNT. mem s (bucket_ptr s b) \<noteq> 0" "bucket < BUCKET_COUNT"
  shows "(buddy_malloc_loop brk request ob bucket s = (Inl NoFreeBlock, s)
          \<and> (\<forall>b\<le>bucket. mem s (bucket_ptr s b) = bucket_ptr s b))
       \<or> (\<exists>b\<le>bucket. mem s (bucket_ptr s b) \<noteq> bucket_ptr s b
            \<and> (\<forall>c. b < c \<and> c \<le> bucket \<longrightarrow> mem s (bucket_ptr s c) = bucket_ptr s c)
            \<and> buddy_malloc_loop brk request ob bucket s =
                take_block brk request ob b (mem s (bucket_ptr s b))
                  (list_remove (mem s (bucket_ptr s b)) s))"
  using assms(2)
proof (induction "unat bucket" arbitrary: bucket)
  case 0
  then have z: "bucket = 0"
    by (simp add: unat_eq_zero)
  show ?case
  proof (cases "mem s (bucket_ptr s 0) = bucket_ptr s 0")
    case True
    have stop: "buddy_malloc_loop brk request ob (- 1) s = (Inl NoFreeBlock, s)"
      by (subst buddy_malloc_loop_step) simp
    from True have "buddy_malloc_loop brk request ob 0 s = buddy_malloc_loop brk request ob (- 1) s"
      by (subst buddy_malloc_loop_step) simp
    with stop True show ?thesis
      unfolding z by simp
  next
    case False
    moreover from assms(1) have "mem s (bucket_ptr s 0) \<noteq> 0"
      by (simp add: BUCKET_COUNT_def MAX_ALLOC_LOG2_def MIN_ALLOC_LOG2_def)
    ultimately have "buddy_malloc_loop brk request ob 0 s =
        take_block brk request ob 0 (mem s (bucket_ptr s 0)) (list_remove (mem s (bucket_ptr s 0)) s)"
      by (subst buddy_malloc_loop_step) simp
    with False show ?thesis
      unfolding z by auto
  qed
next
  case (Suc n)
  then have nz: "bucket \<noteq> 0"
    by auto
  from Suc.prems have s1: "bucket + 1 \<noteq> 0"
    by (rule bucket_succ_nonzero)
  from nz Suc.hyps(2) have n: "n = unat (bucket - 1)"
    by (simp add: bucket_pred(1))
  from nz Suc.prems have lt: "bucket - 1 < BUCKET_COUNT"
    by (simp add: word_less_nat_alt bucket_pred(1))
  from nz have le: "bucket - 1 \<le> bucket"
    by (simp add: bucket_pred(2))
  show ?case
  proof (cases "mem s (bucket_ptr s bucket) = bucket_ptr s bucket")
    case empty: True
    then have step: "buddy_malloc_loop brk request ob bucket s
        = buddy_malloc_loop brk request ob (bucket - 1) s"
      using s1 by (subst buddy_malloc_loop_step) simp
    from Suc.hyps(1) [OF n lt] show ?thesis
    proof
      assume "buddy_malloc_loop brk request ob (bucket - 1) s = (Inl NoFreeBlock, s)
          \<and> (\<forall>b\<le>bucket - 1. mem s (bucket_ptr s b) = bucket_ptr s b)"
      with empty step show ?thesis
        by (auto simp: bucket_pred(2) [OF nz])
    next
      assume "\<exists>b\<le>bucket - 1. mem s (bucket_ptr s b) \<noteq> bucket_ptr s b
            \<and> (\<forall>c. b < c \<and> c \<le> bucket - 1 \<longrightarrow> mem s (bucket_ptr s c) = bucket_ptr s c)
            \<and> buddy_malloc_loop brk request ob (bucket - 1) s =
                take_block brk request ob b (mem s (bucket_ptr s b))
                  (list_remove (mem s (bucket_ptr s b)) s)"
      then obtain b where b: "b \<le> bucket - 1" "mem s (bucket_ptr s b) \<noteq> bucket_ptr s b"
        "\<forall>c. b < c \<and> c \<le> bucket - 1 \<longrightarrow> mem s (bucket_ptr s c) = bucket_ptr s c"
        "buddy_malloc_loop brk request ob (bucket - 1) s =
                take_block brk request ob b (mem s (bucket_ptr s b))
                  (list_remove (mem s (bucket_ptr s b)) s)"
        by blast
      from b(1) le have "b \<le> bucket"
        by (rule order_trans)
      moreover from b(3) empty
      have "\<forall>c. b < c \<and> c \<le> bucket \<longrightarrow> mem s (bucket_ptr s c) = bucket_ptr s c"
        by (auto simp: bucket_pred(2) [OF nz])
      ultimately show ?thesis
        using b(2,4) step by auto
    qed
  next
    case False
    moreover from assms(1) Suc.prems have "mem s (bucket_ptr s bucket) \<noteq> 0"
      by simp
    ultimately have "buddy_malloc_loop brk request ob bucket s =
        take_block brk request ob bucket (mem s (bucket_ptr s bucket))
          (list_remove (mem s (bucket_ptr s bucket)) s)"
      using s1 by (subst buddy_malloc_loop_step) simp
    with False show ?thesis
      by auto
  qed
qed

section \<open>Taking a block\<close>

lemma take_block_CommitFailed:
  assumes "take_block brk request ob bucket ptr s = (Inl CommitFailed, s')"
  shows "s' = list_push (bucket_ptr s bucket) ptr s \<and> (\<exists>a. max_ptr s < a \<and> \<not> brk a)"
  using assms
  by (auto simp: take_block_def Let_def split_beta bucket_ptr_def split: if_splits
        dest: update_max_ptr_refused)

lemma take_block_Inr:
  assumes "take_block brk request ob bucket ptr s = (Inr q, s')"
  shows "q = ptr + HEADER_SIZE \<and> mem s' ptr = request"
  using assms
  by (auto simp: take_block_def Let_def split_beta split: if_splits)

text \<open>Popping the last entry of a well-linked list and pushing it back restores the state.\<close>

lemma pop_push_restore:
  assumes "list_back_linked s l"
  shows "list_push l (mem s l) (list_remove (mem s l) s) = s"
proof -
  let ?B = "mem s l"
  let ?P = "mem s ?B"
  from assms have n: "mem s (?B + 8) = l" and p: "mem s (?P + 8) = ?B"
    by (simp_all add: list_back_linked_def Let_def)
  have "(mem s)(?P + 8 := l, l := ?P, ?B := ?P, ?B + 8 := l, ?P + 8 := ?B, l := ?B) = mem s"
    using n p by (auto simp: fun_eq_iff)
  with n show ?thesis
    by (simp add: list_push_def list_remove_def Let_def)
qed

text \<open>
  When \<open>buddy_malloc\<close> reports a failed commit, \<open>brk\<close> refused an address above
  \<open>max_ptr\<close> and the state is the one before the call.
\<close>

lemma commit_failed_only_when_refused:
  assumes "free_lists_linked s"
    and "buddy_malloc brk request s = Some (Inl CommitFailed, s')"
  shows "returned_ptr (Inl CommitFailed) = 0 \<and> s' = s \<and> (\<exists>a. max_ptr s < a \<and> \<not> brk a)"
proof -
  from assms(2) obtain ob where ob: "bucket_for_request (request + HEADER_SIZE) = Some ob"
    and run: "buddy_malloc_loop brk request ob ob s = (Inl CommitFailed, s')"
    and le: "request + HEADER_SIZE \<le> MAX_ALLOC"
    by (auto simp: buddy_malloc_def not_less split: if_splits option.splits)
  from bucket_for_request_returns [OF le] ob have ob_lt: "ob < BUCKET_COUNT"
    by auto
  from assms(1) have nn: "\<forall>b<BUCKET_COUNT. mem s (bucket_ptr s b) \<noteq> 0"
    by (simp add: free_lists_linked_def list_back_linked_def Let_def)
  from buddy_malloc_loop_search [OF nn ob_lt, of brk request ob] run
  obtain b where b: "b \<le> ob" "mem s (bucket_ptr s b) \<noteq> bucket_ptr s b"
    "take_block brk request ob b (mem s (bucket_ptr s b)) (list_remove (mem s (bucket_ptr s b)) s)
       = (Inl CommitFailed, s')"
    by auto
  from b(1) ob_lt have "b < BUCKET_COUNT"
    by (rule le_less_trans)
  with assms(1) have linked: "list_back_linked s (bucket_ptr s b)"
    by (simp add: free_lists_linked_def)
  from take_block_CommitFailed [OF b(3)]
  have "s' = list_push (bucket_ptr s b) (mem s (bucket_ptr s b)) (list_remove (mem s (bucket_ptr s b)) s)"
    and "\<exists>a. max_ptr s < a \<and> \<not> brk a"
    by (simp_all add: bucket_ptr_def list_remove_fields)
  with pop_push_restore [OF linked] show ?thesis
    by simp
qed

text \<open>The commit of \<open>take_block\<close> is refused: the block goes back on its list.\<close>

lemma take_block_refused:
  assumes "max_ptr s < ptr + (if bucket < ob
        then push_bit (unat (MAX_ALLOC_LOG2 - bucket)) 1 div 2 + LIST_SIZE
        else push_bit (unat (MAX_ALLOC_LOG2 - bucket)) 1)"
    and "\<not> brk (ptr + (if bucket < ob
        then push_bit (unat (MAX_ALLOC_LOG2 - bucket)) 1 div 2 + LIST_SIZE
        else push_bit (unat (MAX_ALLOC_LOG2 - bucket)) 1))"
  shows "take_block brk request ob bucket ptr s
    = (Inl CommitFailed, list_push (bucket_ptr s bucket) ptr s)"
  using assms by (simp add: take_block_def Let_def update_max_ptr_def split: if_splits)

text \<open>
  C4. Whenever \<open>brk\<close> refuses the extension that \<open>buddy_malloc(request)\<close> asks for, the
  call returns \<open>NULL\<close> and the state after the call equals the state before it: memory
  (all free lists), split bits, \<open>max_ptr\<close> and the break. The extension asked for is
  \<open>a = ptr + bytes_needed\<close>, where \<open>ptr\<close> is the block selected by the search (the last
  entry of the first non-empty free list, going from the bucket \<open>ob\<close> of \<open>request + 8\<close>
  towards bucket 0) and \<open>bytes_needed\<close> is half the block plus a list entry when the
  block is to be split, the whole block otherwise; it is refused when \<open>a\<close> is above
  \<open>max_ptr\<close> and \<open>brk(a)\<close> fails. The free lists are assumed well linked at their back.
\<close>

theorem refused_commit_restores_state:
  assumes "free_lists_linked s"
    and "request + HEADER_SIZE \<le> MAX_ALLOC"
    and "bucket_for_request (request + HEADER_SIZE) = Some ob"
    and "bucket \<le> ob"
    and "mem s (bucket_ptr s bucket) \<noteq> bucket_ptr s bucket"
    and "\<forall>c. bucket < c \<and> c \<le> ob \<longrightarrow> mem s (bucket_ptr s c) = bucket_ptr s c"
    and "a = mem s (bucket_ptr s bucket)
           + (if bucket < ob then push_bit (unat (MAX_ALLOC_LOG2 - bucket)) 1 div 2 + LIST_SIZE
              else push_bit (unat (MAX_ALLOC_LOG2 - bucket)) 1)"
    and "max_ptr s < a"
    and "\<not> brk a"
  shows "\<exists>r. buddy_malloc brk request s = Some (r, s) \<and> r = Inl CommitFailed \<and> returned_ptr r = 0"
proof -
  let ?ptr = "mem s (bucket_ptr s bucket)"
  let ?s = "list_remove ?ptr s"
  from bucket_for_request_returns [OF assms(2)] assms(3) have ob_lt: "ob < BUCKET_COUNT"
    by auto
  from assms(1) have nn: "\<forall>b<BUCKET_COUNT. mem s (bucket_ptr s b) \<noteq> 0"
    by (simp add: free_lists_linked_def list_back_linked_def Let_def)
  from buddy_malloc_loop_search [OF nn ob_lt, of brk request ob] assms(4,5)
  obtain b where b: "b \<le> ob" "mem s (bucket_ptr s b) \<noteq> bucket_ptr s b"
    "\<forall>c. b < c \<and> c \<le> ob \<longrightarrow> mem s (bucket_ptr s c) = bucket_ptr s c"
    "buddy_malloc_loop brk request ob ob s =
       take_block brk request ob b (mem s (bucket_ptr s b)) (list_remove (mem s (bucket_ptr s b)) s)"
    by auto
  have "\<not> b < bucket"
    using b(3) assms(4,5) by auto
  moreover have "\<not> bucket < b"
    using assms(6) b(1,2) by auto
  ultimately have eq: "b = bucket"
    by simp
  from assms(4) ob_lt have "bucket < BUCKET_COUNT"
    by (rule le_less_trans)
  with assms(1) have linked: "list_back_linked s (bucket_ptr s bucket)"
    by (simp add: free_lists_linked_def)
  have "take_block brk request ob bucket ?ptr ?s
      = (Inl CommitFailed, list_push (bucket_ptr ?s bucket) ?ptr ?s)"
    using assms(8,9) unfolding assms(7)
    by (intro take_block_refused) (simp_all add: list_remove_fields)
  also have "list_push (bucket_ptr ?s bucket) ?ptr ?s = s"
    using pop_push_restore [OF linked] by (simp add: bucket_ptr_def list_remove_fields)
  finally have "buddy_malloc_loop brk request ob ob s = (Inl CommitFailed, s)"
    using b(4) eq by simp
  with assms(2,3) show ?thesis
    by (simp add: buddy_malloc_def not_less [symmetric])
qed

text \<open>
  C7. Whenever \<open>buddy_malloc(request)\<close> succeeds and returns \<open>q\<close>, the cell at \<open>q - 8\<close>
  holds \<open>request\<close> itself, and \<open>q - 8\<close> is the block selected by the search: the last entry
  of the first non-empty free list, going from the bucket of \<open>request + 8\<close> towards
  bucket 0. The free lists are assumed well linked at their back.
\<close>

theorem malloc_header_and_address:
  assumes "free_lists_linked s"
    and "buddy_malloc brk request s = Some (Inr q, s')"
  shows "mem s' (q - HEADER_SIZE) = request
    \<and> (\<exists>ob bucket. bucket_for_request (request + HEADER_SIZE) = Some ob \<and> bucket \<le> ob
          \<and> mem s (bucket_ptr s bucket) \<noteq> bucket_ptr s bucket
          \<and> (\<forall>c. bucket < c \<and> c \<le> ob \<longrightarrow> mem s (bucket_ptr s c) = bucket_ptr s c)
          \<and> q = mem s (bucket_ptr s bucket) + HEADER_SIZE)"
proof -
  from assms(2) obtain ob where ob: "bucket_for_request (request + HEADER_SIZE) = Some ob"
    and run: "buddy_malloc_loop brk request ob ob s = (Inr q, s')"
    and le: "request + HEADER_SIZE \<le> MAX_ALLOC"
    by (auto simp: buddy_malloc_def not_less split: if_splits option.splits)
  from bucket_for_request_returns [OF le] ob have ob_lt: "ob < BUCKET_COUNT"
    by auto
  from assms(1) have nn: "\<forall>b<BUCKET_COUNT. mem s (bucket_ptr s b) \<noteq> 0"
    by (simp add: free_lists_linked_def list_back_linked_def Let_def)
  from buddy_malloc_loop_search [OF nn ob_lt, of brk request ob] run
  obtain b where b: "b \<le> ob" "mem s (bucket_ptr s b) \<noteq> bucket_ptr s b"
    "\<forall>c. b < c \<and> c \<le> ob \<longrightarrow> mem s (bucket_ptr s c) = bucket_ptr s c"
    "take_block brk request ob b (mem s (bucket_ptr s b)) (list_remove (mem s (bucket_ptr s b)) s)
       = (Inr q, s')"
    by auto
  from take_block_Inr [OF b(4)]
  have q: "q = mem s (bucket_ptr s b) + HEADER_SIZE" and h: "mem s' (mem s (bucket_ptr s b)) = request"
    by simp_all
  from q h have "mem s' (q - HEADER_SIZE) = request"
    by simp
  with ob b(1,2,3) q show ?thesis
    by blast
qed

section \<open>Symbolic execution\<close>

text \<open>
  The same functions as equations that the simplifier can run on a state given as a
  record: no \<open>let\<close>, one occurrence of the state where it is rewritten, loops unfolded one
  iteration at a time.
\<close>

lemma list_push_run:
  "list_push l e s = mem_update (\<lambda>m. m(e := m l, e + 8 := l, m l + 8 := e, l := e)) s"
  by (simp add: list_push_def Let_def)

lemma list_remove_run:
  "list_remove e s = mem_update (\<lambda>m. m(m e + 8 := m (e + 8), m (e + 8) := m e)) s"
  by (simp add: list_remove_def Let_def)

lemma list_init_run:
  "list_init l s = mem_update (\<lambda>m. m(l := l, l + 8 := l)) s"
  by (simp add: list_init_def)

lemma flip_parent_is_split_run:
  "snd (flip_parent_is_split i s) =
     node_is_split_update (\<lambda>n. n((i - 1) div 2 div 8 :=
        n ((i - 1) div 2 div 8) XOR push_bit (unat ((i - 1) div 2 mod 8)) 1)) s"
  "fst (flip_parent_is_split i s) =
     node_is_split s ((i - 1) div 2 div 8) XOR push_bit (unat ((i - 1) div 2 mod 8)) 1"
  by (simp_all add: flip_parent_is_split_def Let_def)

lemma split_loop_run:
  "split_loop ob i bucket s =
     (if bucket < ob then
        split_loop ob (i * 2 + 1) (bucket + 1)
          (list_push (buckets s + LIST_SIZE * (bucket + 1))
             (base_ptr s + push_bit (unat (MAX_ALLOC_LOG2 - (bucket + 1)))
                (i * 2 + 1 + 1 - push_bit (unat (bucket + 1)) 1 + 1))
             (snd (flip_parent_is_split (i * 2 + 1) s)))
      else s)"
  by (subst split_loop.simps)
     (simp add: Let_def bucket_ptr_def ptr_for_node_def flip_parent_is_split_fields)

lemma take_block_run:
  "take_block brk request ob bucket ptr s =
     (if fst (update_max_ptr brk (ptr + (if bucket < ob
                   then push_bit (unat (MAX_ALLOC_LOG2 - bucket)) 1 div 2 + LIST_SIZE
                   else push_bit (unat (MAX_ALLOC_LOG2 - bucket)) 1)) s)
      then (Inr (ptr + HEADER_SIZE),
            mem_update (\<lambda>m. m(ptr := request))
              (split_loop ob (node_for_ptr s ptr bucket) bucket
                 (if node_for_ptr s ptr bucket \<noteq> 0
                  then snd (flip_parent_is_split (node_for_ptr s ptr bucket)
                         (snd (update_max_ptr brk (ptr + (if bucket < ob
                   then push_bit (unat (MAX_ALLOC_LOG2 - bucket)) 1 div 2 + LIST_SIZE
                   else push_bit (unat (MAX_ALLOC_LOG2 - bucket)) 1)) s)))
                  else snd (update_max_ptr brk (ptr + (if bucket < ob
                   then push_bit (unat (MAX_ALLOC_LOG2 - bucket)) 1 div 2 + LIST_SIZE
                   else push_bit (unat (MAX_ALLOC_LOG2 - bucket)) 1)) s))))
      else (Inl CommitFailed, list_push (bucket_ptr s bucket) ptr s))"
  by (auto simp: take_block_def Let_def split_beta node_for_ptr_def update_max_ptr_fields
        bucket_ptr_def dest: update_max_ptr_refused)

lemma buddy_malloc_loop_run:
  "buddy_malloc_loop brk request ob bucket s =
     (if bucket + 1 \<noteq> 0 then
        (if mem s (bucket_ptr s bucket) = bucket_ptr s bucket
         then buddy_malloc_loop brk request ob (bucket - 1) s
         else if mem s (bucket_ptr s bucket) = 0
         then buddy_malloc_loop brk request ob (bucket - 1) (list_remove 0 s)
         else take_block brk request ob bucket (mem s (bucket_ptr s bucket))
                (list_remove (mem s (bucket_ptr s bucket)) s))
      else (Inl NoFreeBlock, s))"
  by (subst buddy_malloc_loop.simps) (simp add: list_pop_def Let_def)

lemma buddy_free_loop_run:
  "buddy_free_loop i bucket s =
     (if i \<noteq> 0 then
        (if fst (flip_parent_is_split i s) \<noteq> 0 then (i, bucket, snd (flip_parent_is_split i s))
         else buddy_free_loop ((i - 1) div 2) (bucket - 1)
                (list_remove (ptr_for_node s (((i - 1) XOR 1) + 1) bucket)
                   (snd (flip_parent_is_split i s))))
      else (i, bucket, s))"
  by (subst buddy_free_loop.simps)
     (simp add: split_beta ptr_for_node_def flip_parent_is_split_fields)

lemma init_loop_run:
  "init_loop i s =
     (if i < BUCKET_COUNT then init_loop (i + 1) (list_init (buckets s + LIST_SIZE * i) s) else s)"
  by (subst init_loop.simps) (simp add: bucket_ptr_def)

lemma buddy_init_run:
  "buddy_init brk s =
     list_push (buckets s) (break s)
       (init_loop 0 (snd (update_max_ptr brk (break s + LIST_SIZE)
          (s\<lparr>base_ptr := break s, max_ptr := break s\<rparr>))))"
  by (simp add: buddy_init_def Let_def bucket_ptr_def init_loop_fields update_max_ptr_fields)

lemma buddy_free_run:
  "buddy_free ptr s =
     (case bucket_for_request (mem s (ptr - HEADER_SIZE) + HEADER_SIZE) of
        None \<Rightarrow> None
      | Some bucket \<Rightarrow>
          (case buddy_free_loop (node_for_ptr s (ptr - HEADER_SIZE) bucket) bucket s of
             (i, bucket, s) \<Rightarrow> Some (list_push (bucket_ptr s bucket) (ptr_for_node s i bucket) s)))"
  by (simp add: buddy_free_def Let_def)

lemmas constants =
  HEADER_SIZE_def MIN_ALLOC_LOG2_def MIN_ALLOC_def MAX_ALLOC_LOG2_def MAX_ALLOC_def
  BUCKET_COUNT_def LIST_SIZE_def

text \<open>
  Memory in the form \<open>mem_rep bp hs ar\<close>: reads and writes of the cells of the array
  \<open>buckets\<close> become list operations, all other cells stay in \<open>ar\<close>.
\<close>

lemma mem_rep_static:
  "a - bp < 448 \<Longrightarrow> (a - bp) mod 8 = 0 \<Longrightarrow> mem_rep bp hs ar a = hs ! unat ((a - bp) div 8)"
  by (simp add: mem_rep_def)

lemma mem_rep_arena:
  "\<not> a - bp < 448 \<Longrightarrow> mem_rep bp hs ar a = ar a"
  by (simp add: mem_rep_def)

lemma static_index_less:
  assumes "(d :: addr) < 448"
  shows "unat (d div 8) < 56"
proof -
  from assms have "unat d < 448"
    by (simp add: word_less_nat_alt)
  then show ?thesis
    by (simp add: unat_div)
qed

lemma static_index_inj:
  assumes "(d :: addr) mod 8 = 0" "(e :: addr) mod 8 = 0" "unat (d div 8) = unat (e div 8)"
  shows "d = e"
  using assms by (metis word_mod_div_equality word_unat_eq_iff)

lemma mem_rep_upd_static:
  assumes "length hs = 56" "a - bp < 448" "(a - bp) mod 8 = 0"
  shows "(mem_rep bp hs ar)(a := v) = mem_rep bp (hs[unat ((a - bp) div 8) := v]) ar"
proof
  fix x
  show "((mem_rep bp hs ar)(a := v)) x = mem_rep bp (hs[unat ((a - bp) div 8) := v]) ar x"
  proof (cases "x = a")
    case True
    with assms static_index_less [OF assms(2)] show ?thesis
      by (simp add: mem_rep_def)
  next
    case False
    then have neq: "x - bp \<noteq> a - bp"
      by simp
    show ?thesis
    proof (cases "x - bp < 448 \<and> (x - bp) mod 8 = 0")
      case True
      with assms(3) neq static_index_inj [of "x - bp" "a - bp"]
      have "unat ((a - bp) div 8) \<noteq> unat ((x - bp) div 8)"
        by metis
      then have "hs[unat ((a - bp) div 8) := v] ! unat ((x - bp) div 8) = hs ! unat ((x - bp) div 8)"
        by (rule nth_list_update_neq)
      with True False show ?thesis
        by (simp add: mem_rep_def del: mod_eq_0_iff_dvd)
    next
      case stat: False
      with False show ?thesis
        by (auto simp add: mem_rep_def simp del: mod_eq_0_iff_dvd)
    qed
  qed
qed

lemma mem_rep_upd_arena:
  "\<not> a - bp < 448 \<Longrightarrow> (mem_rep bp hs ar)(a := v) = mem_rep bp hs (ar(a := v))"
  by (auto simp: mem_rep_def)

lemma mem_rep_cells:
  assumes "length hs = 56" "\<forall>k<56. hs ! k = m (bp + 8 * of_nat k)"
  shows "m = mem_rep bp hs m"
proof
  fix a
  show "m a = mem_rep bp hs m a"
  proof (cases "a - bp < 448 \<and> (a - bp) mod 8 = 0")
    case True
    then have k: "unat ((a - bp) div 8) < 56"
      by (simp add: static_index_less)
    from True have "8 * ((a - bp) div 8) = a - bp"
      by (metis word_mod_div_equality add.right_neutral mult.commute)
    then have "bp + 8 * ((a - bp) div 8) = a"
      by simp
    with assms(2) k have "hs ! unat ((a - bp) div 8) = m a"
      by (metis of_nat_unat ucast_id)
    with True show ?thesis
      by (simp add: mem_rep_def)
  next
    case False
    then show ?thesis
      by (auto simp: mem_rep_def)
  qed
qed

lemma list_update_Cons_numeral:
  "(x # xs)[numeral v := y] = x # xs[numeral v - 1 := y]"
  by (simp add: numeral_eq_Suc)

lemma layout_arena_not_static:
  assumes "layout_ok bp hb" "d < 0x80000000"
  shows "\<not> hb + d - bp < 448"
proof -
  from assms(2) have d: "unat d < 2 ^ 31"
    by (simp add: word_less_nat_alt)
  from assms(1) have l: "unat bp + 448 \<le> unat hb" "unat hb + 2 ^ 31 < 2 ^ 64"
    by (simp_all add: layout_ok_def)
  then have "unat (hb + d) = unat hb + unat d"
    using d by (simp add: unat_add_lem [THEN iffD1])
  moreover from this l have "unat (hb + d - bp) = unat (hb + d) - unat bp"
    by (simp add: unat_sub word_le_nat_alt)
  ultimately have "448 \<le> unat (hb + d - bp)"
    using l by simp
  then show ?thesis
    by (simp add: word_less_nat_alt)
qed

lemma layout_base_not_static:
  assumes "layout_ok bp hb"
  shows "\<not> hb - bp < 448"
  using layout_arena_not_static [OF assms, of 0] by simp

lemma word_all_less_pred:
  assumes "(k :: size_t) \<noteq> 0"
  shows "(\<forall>b<k. P b) \<longleftrightarrow> P (k - 1) \<and> (\<forall>b<k - 1. P b)"
proof -
  from assms have u: "unat (k - 1) = unat k - 1" "0 < unat k"
    by (simp_all add: unat_minus_one unat_gt_0)
  have "b < k \<longleftrightarrow> b < k - 1 \<or> b = k - 1" for b
    unfolding word_less_nat_alt word_unat_eq_iff u(1) using u(2) by arith
  then show ?thesis
    by auto
qed

lemmas word_all_less_numeral = word_all_less_pred [of "numeral n" for n]

lemma word_all_less_one: "(\<forall>b<(1 :: size_t). P b) \<longleftrightarrow> P 0"
proof -
  have "b < 1 \<longleftrightarrow> b = 0" for b :: size_t
    by (auto simp: word_less_nat_alt unat_eq_zero)
  then show ?thesis
    by auto
qed

lemma nat_all_less_numeral:
  "(\<forall>k<(numeral n :: nat). P k) \<longleftrightarrow> P (numeral n - 1) \<and> (\<forall>k<numeral n - 1. P k)"
proof -
  have "k < numeral n \<longleftrightarrow> k < numeral n - 1 \<or> k = numeral n - 1" for k :: nat
    by (simp add: numeral_eq_Suc less_Suc_eq)
  then show ?thesis
    by auto
qed

lemma boot_rep:
  "boot bp hb m = \<lparr>mem = mem_rep bp
      [m bp, m (bp + 8), m (bp + 16), m (bp + 24), m (bp + 32), m (bp + 40), m (bp + 48), m (bp
       + 56), m (bp + 64), m (bp + 72), m (bp + 80), m (bp + 88), m (bp + 96), m (bp + 104), m
       (bp + 112), m (bp + 120), m (bp + 128), m (bp + 136), m (bp + 144), m (bp + 152), m (bp +
       160), m (bp + 168), m (bp + 176), m (bp + 184), m (bp + 192), m (bp + 200), m (bp + 208),
       m (bp + 216), m (bp + 224), m (bp + 232), m (bp + 240), m (bp + 248), m (bp + 256), m (bp
       + 264), m (bp + 272), m (bp + 280), m (bp + 288), m (bp + 296), m (bp + 304), m (bp +
       312), m (bp + 320), m (bp + 328), m (bp + 336), m (bp + 344), m (bp + 352), m (bp + 360),
       m (bp + 368), m (bp + 376), m (bp + 384), m (bp + 392), m (bp + 400), m (bp + 408), m (bp
       + 416), m (bp + 424), m (bp + 432), m (bp + 440)] m,
     node_is_split = (\<lambda>_. 0), base_ptr = 0, max_ptr = 0, buckets = bp, break = hb\<rparr>"
proof -
  have "m = mem_rep bp
      [m bp, m (bp + 8), m (bp + 16), m (bp + 24), m (bp + 32), m (bp + 40), m (bp + 48), m (bp
       + 56), m (bp + 64), m (bp + 72), m (bp + 80), m (bp + 88), m (bp + 96), m (bp + 104), m
       (bp + 112), m (bp + 120), m (bp + 128), m (bp + 136), m (bp + 144), m (bp + 152), m (bp +
       160), m (bp + 168), m (bp + 176), m (bp + 184), m (bp + 192), m (bp + 200), m (bp + 208),
       m (bp + 216), m (bp + 224), m (bp + 232), m (bp + 240), m (bp + 248), m (bp + 256), m (bp
       + 264), m (bp + 272), m (bp + 280), m (bp + 288), m (bp + 296), m (bp + 304), m (bp +
       312), m (bp + 320), m (bp + 328), m (bp + 336), m (bp + 344), m (bp + 352), m (bp + 360),
       m (bp + 368), m (bp + 376), m (bp + 384), m (bp + 392), m (bp + 400), m (bp + 408), m (bp
       + 416), m (bp + 424), m (bp + 432), m (bp + 440)] m"
    by (rule mem_rep_cells) (simp_all add: nat_all_less_numeral)
  then show ?thesis
    by (simp add: boot_def)
qed

lemma layout_less:
  assumes "layout_ok bp hb" "c < d" "d < 0x80000000"
  shows "hb + c < hb + d"
proof -
  from assms have "unat c < unat d" "unat d < 2 ^ 31"
    by (simp_all add: word_less_nat_alt)
  moreover from assms(1) have "unat hb + 2 ^ 31 < 2 ^ 64"
    by (simp add: layout_ok_def)
  ultimately have "unat (hb + c) = unat hb + unat c" "unat (hb + d) = unat hb + unat d"
    by (simp_all add: unat_add_lem [THEN iffD1])
  with \<open>unat c < unat d\<close> show ?thesis
    by (simp add: word_less_nat_alt)
qed

lemma layout_less0:
  assumes "layout_ok bp hb" "0 < d" "d < 0x80000000"
  shows "hb < hb + d"
  using layout_less [OF assms(1) assms(2) assms(3)] by simp

lemma layout_arena_not_static':
  assumes "layout_ok bp hb" "d < 0x80000000"
  shows "\<not> d + hb - bp < 448"
  using layout_arena_not_static [OF assms] by (simp add: add.commute)

lemma layout_less':
  assumes "layout_ok bp hb" "c < d" "d < 0x80000000"
  shows "c + hb < hb + d" "hb + c < d + hb" "c + hb < d + hb"
  using layout_less [OF assms] by (simp_all add: add.commute)

lemma layout_less0':
  assumes "layout_ok bp hb" "0 < d" "d < 0x80000000"
  shows "hb < d + hb"
  using layout_less0 [OF assms] by (simp add: add.commute)

lemma layout_neq:
  assumes "layout_ok bp hb" "d < 0x80000000" "c < 448"
  shows "hb + d \<noteq> bp + c"
proof
  assume "hb + d = bp + c"
  then have "hb + d - bp = c"
    by simp
  with assms(3) layout_arena_not_static [OF assms(1) assms(2)] show False
    by simp
qed

lemma layout_neq_simps:
  assumes "layout_ok bp hb" "d < 0x80000000" "c < 448"
  shows "(hb + d = bp + c) = False" "(d + hb = bp + c) = False"
    "(hb + d = c + bp) = False" "(d + hb = c + bp) = False"
    "(bp + c = hb + d) = False" "(bp + c = d + hb) = False"
    "(c + bp = hb + d) = False" "(c + bp = d + hb) = False"
  using layout_neq [OF assms] by (auto simp: add.commute)

lemma layout_neq_base:
  assumes "layout_ok bp hb" "c < 448"
  shows "(hb = bp + c) = False" "(hb = c + bp) = False"
    "(bp + c = hb) = False" "(c + bp = hb) = False"
proof -
  have "(0 :: addr) < 0x80000000"
    by simp
  from layout_neq [OF assms(1) this assms(2)]
  show "(hb = bp + c) = False" "(hb = c + bp) = False"
    "(bp + c = hb) = False" "(c + bp = hb) = False"
    by (auto simp: add.commute)
qed

lemma layout_neq_head:
  assumes "layout_ok bp hb" "d < 0x80000000"
  shows "(hb + d = bp) = False" "(d + hb = bp) = False"
    "(bp = hb + d) = False" "(bp = d + hb) = False"
proof -
  have "(0 :: addr) < 448"
    by simp
  from layout_neq [OF assms(1) assms(2) this]
  show "(hb + d = bp) = False" "(d + hb = bp) = False"
    "(bp = hb + d) = False" "(bp = d + hb) = False"
    by (auto simp: add.commute)
qed

lemma layout_nonnull_offset:
  assumes "layout_ok bp hb" "d < 0x80000000"
  shows "(hb + d = 0) = False" "(d + hb = 0) = False" "(0 = hb + d) = False" "(0 = d + hb) = False"
proof -
  from assms(2) have d: "unat d < 2 ^ 31"
    by (simp add: word_less_nat_alt)
  from assms(1) have l: "unat bp + 448 \<le> unat hb" "unat hb + 2 ^ 31 < 2 ^ 64"
    by (simp_all add: layout_ok_def)
  then have "unat (hb + d) = unat hb + unat d"
    using d by (simp add: unat_add_lem [THEN iffD1])
  with l have "unat (hb + d) \<noteq> 0"
    by simp
  then have "hb + d \<noteq> 0"
    by (auto simp: unat_eq_zero)
  then show "(hb + d = 0) = False" "(d + hb = 0) = False" "(0 = hb + d) = False"
    "(0 = d + hb) = False"
    by (auto simp: add.commute)
qed

lemma layout_base:
  assumes "layout_ok bp hb"
  shows "(hb = 0) = False" "(0 = hb) = False" "(hb = bp) = False" "(bp = hb) = False"
proof -
  have z: "(0 :: addr) < 0x80000000" "(0 :: addr) < 448"
    by simp_all
  from layout_nonnull_offset [OF assms z(1)] layout_neq [OF assms z(1) z(2)]
  show "(hb = 0) = False" "(0 = hb) = False" "(hb = bp) = False" "(bp = hb) = False"
    by auto
qed

lemma layout_static_nonnull:
  assumes "layout_ok bp hb" "c < 448"
  shows "(bp + c = 0) = False" "(c + bp = 0) = False" "(0 = bp + c) = False" "(0 = c + bp) = False"
proof -
  from assms(2) have c: "unat c < 448"
    by (simp add: word_less_nat_alt)
  from assms(1) have l: "bp \<noteq> 0" "unat bp + 448 \<le> unat hb"
    by (simp_all add: layout_ok_def)
  have "unat hb < 2 ^ 64"
    using unsigned_less [of hb] by simp
  with l c have "unat (bp + c) = unat bp + unat c"
    by (simp add: unat_add_lem [THEN iffD1])
  moreover from l have "unat bp \<noteq> 0"
    by (simp add: unat_eq_zero)
  ultimately have "unat (bp + c) \<noteq> 0"
    by simp
  then have "bp + c \<noteq> 0"
    by (auto simp: unat_eq_zero)
  then show "(bp + c = 0) = False" "(c + bp = 0) = False" "(0 = bp + c) = False"
    "(0 = c + bp) = False"
    by (auto simp: add.commute)
qed

lemma layout_static_base_nonnull:
  assumes "layout_ok bp hb"
  shows "(bp = 0) = False" "(0 = bp) = False"
  using assms by (auto simp: layout_ok_def)

lemmas layout_rules =
  layout_arena_not_static layout_base_not_static layout_less layout_less0
  layout_arena_not_static' layout_less' layout_less0' layout_neq_simps layout_neq_base
  layout_neq_head layout_nonnull_offset layout_base layout_static_nonnull
  layout_static_base_nonnull

lemmas mem_rep_rules =
  mem_rep_static mem_rep_arena mem_rep_upd_static mem_rep_upd_arena list_update_Cons_numeral

lemmas run_ops =
  constants bucket_ptr_def update_max_ptr_def list_init_run list_push_run list_remove_run
  ptr_for_node_def node_for_ptr_def flip_parent_is_split_run split_loop_run take_block_run
  buddy_malloc_loop_run buddy_free_loop_run
  bucket_for_request_def bucket_for_request_loop.simps buddy_malloc_def buddy_free_run
  mem_rep_rules layout_rules

lemmas run_init = init_loop_run buddy_init_run boot_rep

section \<open>The state after buddy_init\<close>

text \<open>
  After a \<open>buddy_init\<close> whose commit is granted: every bucket head is linked to itself,
  except that of bucket 0, whose only entry is the block at the break.
\<close>

lemma buddy_init_boot:
  assumes "layout_ok bp hb" "brk (hb + 16)"
  shows "buddy_init brk (boot bp hb m) =
    \<lparr>mem = mem_rep bp
       [hb, hb, bp + 16, bp + 16, bp + 32, bp + 32, bp + 48, bp + 48, bp + 64, bp + 64, bp +
        80, bp + 80, bp + 96, bp + 96, bp + 112, bp + 112, bp + 128, bp + 128, bp + 144, bp +
        144, bp + 160, bp + 160, bp + 176, bp + 176, bp + 192, bp + 192, bp + 208, bp + 208, bp
        + 224, bp + 224, bp + 240, bp + 240, bp + 256, bp + 256, bp + 272, bp + 272, bp + 288,
        bp + 288, bp + 304, bp + 304, bp + 320, bp + 320, bp + 336, bp + 336, bp + 352, bp +
        352, bp + 368, bp + 368, bp + 384, bp + 384, bp + 400, bp + 400, bp + 416, bp + 416, bp
        + 432, bp + 432]
       (m(hb := bp, hb + 8 := bp)),
     node_is_split = (\<lambda>_. 0), base_ptr = hb, max_ptr = hb + 16, buckets = bp,
     break = hb + 16\<rparr>"
  using assms by (simp add: run_ops run_init)

lemma init_free_lists_linked:
  assumes "layout_ok bp hb" "brk (hb + 16)"
  shows "free_lists_linked (buddy_init brk (boot bp hb m))"
  unfolding buddy_init_boot [of bp hb brk m, OF assms] free_lists_linked_def
  using assms(1)
  by (simp add: word_all_less_numeral word_all_less_one run_ops list_back_linked_def)

section \<open>Commit failure, header and high-water mark on a run\<close>

lemma layout_example: "layout_ok 0x1000 0x100000"
  by (simp add: layout_ok_def)

lemma word_le_27: "(c :: size_t) \<le> 27 \<longleftrightarrow> c < 28"
  by (simp add: word_le_nat_alt word_less_nat_alt) arith

theorem refused_commit_restores_state_witness:
  "free_lists_linked (buddy_init (\<lambda>_. True) (boot 0x1000 0x100000 (\<lambda>_. 0)))
   \<and> bucket_for_request (8 + HEADER_SIZE) = Some 27
   \<and> bucket_for_request (0x7FFFFFF8 + HEADER_SIZE) = Some 0
   \<and> max_ptr (buddy_init (\<lambda>_. True) (boot 0x1000 0x100000 (\<lambda>_. 0))) = 0x100010
   \<and> buddy_malloc (\<lambda>a. a \<le> 0x100040) 8 (buddy_init (\<lambda>_. True) (boot 0x1000 0x100000 (\<lambda>_. 0)))
       = Some (Inl CommitFailed, buddy_init (\<lambda>_. True) (boot 0x1000 0x100000 (\<lambda>_. 0)))
   \<and> buddy_malloc (\<lambda>a. a \<le> 0x100040) 0x7FFFFFF8
         (buddy_init (\<lambda>_. True) (boot 0x1000 0x100000 (\<lambda>_. 0)))
       = Some (Inl CommitFailed, buddy_init (\<lambda>_. True) (boot 0x1000 0x100000 (\<lambda>_. 0)))"
proof -
  let ?s = "buddy_init (\<lambda>_. True) (boot 0x1000 0x100000 (\<lambda>_. 0))"
  let ?brk = "\<lambda>a :: addr. a \<le> 0x100040"
  have linked: "free_lists_linked ?s"
    by (rule init_free_lists_linked [OF layout_example]) simp
  have rs: "(8 :: size_t) + HEADER_SIZE \<le> MAX_ALLOC"
    and rl: "(0x7FFFFFF8 :: size_t) + HEADER_SIZE \<le> MAX_ALLOC"
    by (simp_all add: constants)
  have ob: "bucket_for_request (8 + HEADER_SIZE) = Some 27"
    "bucket_for_request (0x7FFFFFF8 + HEADER_SIZE) = Some 0"
    by (simp_all add: run_ops)
  have ne: "mem ?s (bucket_ptr ?s 0) \<noteq> bucket_ptr ?s 0"
    and bk: "mem ?s (bucket_ptr ?s 0) = 0x100000"
    and hwm: "max_ptr ?s = 0x100010"
    by (simp_all add: buddy_init_boot [OF layout_example] run_ops)
  have "\<forall>c<28. c \<noteq> 0 \<longrightarrow> mem ?s (bucket_ptr ?s c) = bucket_ptr ?s c"
    unfolding buddy_init_boot [of "0x1000" "0x100000" "\<lambda>_. True" "\<lambda>_. 0", OF layout_example TrueI]
    by (simp add: word_all_less_numeral word_all_less_one run_ops)
  then have em: "\<forall>c. 0 < c \<and> c \<le> 27 \<longrightarrow> mem ?s (bucket_ptr ?s c) = bucket_ptr ?s c"
    by (auto simp: word_le_27 word_neq_0_conv)
  have nt: "\<forall>c. (0 :: size_t) < c \<and> c \<le> 0 \<longrightarrow> mem ?s (bucket_ptr ?s c) = bucket_ptr ?s c"
    by auto
  from refused_commit_restores_state [where s = ?s and brk = ?brk and request = 8 and ob = 27
      and bucket = 0 and a = "0x40100010", OF linked rs ob(1) _ ne em]
  have sp: "buddy_malloc ?brk 8 ?s = Some (Inl CommitFailed, ?s)"
    by (simp add: bk hwm constants)
  from refused_commit_restores_state [where s = ?s and brk = ?brk and request = "0x7FFFFFF8"
      and ob = 0 and bucket = 0 and a = "0x80100000", OF linked rl ob(2) _ ne nt]
  have wh: "buddy_malloc ?brk 0x7FFFFFF8 ?s = Some (Inl CommitFailed, ?s)"
    by (simp add: bk hwm constants)
  from linked ob hwm sp wh show ?thesis
    by simp
qed

theorem malloc_header_and_address_witness:
  "free_lists_linked (buddy_init (\<lambda>_. True) (boot 0x1000 0x100000 (\<lambda>_. 0)))
   \<and> (\<exists>s'. buddy_malloc (\<lambda>_. True) 100 (buddy_init (\<lambda>_. True) (boot 0x1000 0x100000 (\<lambda>_. 0)))
           = Some (Inr 0x100008, s')
         \<and> mem s' (0x100008 - HEADER_SIZE) = 100)"
proof -
  let ?s = "buddy_init (\<lambda>_. True) (boot 0x1000 0x100000 (\<lambda>_. 0))"
  have linked: "free_lists_linked ?s"
    by (rule init_free_lists_linked [OF layout_example]) simp
  have "\<exists>s'. buddy_malloc (\<lambda>_. True) 100 ?s = Some (Inr 0x100008, s')"
    by (simp add: buddy_init_boot [OF layout_example] run_ops)
  then obtain s' where run: "buddy_malloc (\<lambda>_. True) 100 ?s = Some (Inr 0x100008, s')"
    by blast
  from malloc_header_and_address [OF linked run] have "mem s' (0x100008 - HEADER_SIZE) = 100"
    by simp
  with linked run show ?thesis
    by blast
qed

text \<open>
  C9. From the program image on, across every sequence of calls of \<open>buddy_init\<close>,
  \<open>buddy_malloc\<close> and \<open>buddy_free\<close> (in particular across every single call), \<open>max_ptr\<close>
  does not decrease, and it never exceeds the break, which only a granted \<open>brk\<close> moves.
\<close>

theorem max_ptr_never_decreases:
  assumes "exec ops1 ([], boot bp hb m) = Some (ps1, s1)"
    and "exec ops2 (ps1, s1) = Some (ps2, s2)"
  shows "max_ptr s1 \<le> max_ptr s2 \<and> max_ptr s2 \<le> break s2"
proof -
  have "max_ptr (boot bp hb m) \<le> break (boot bp hb m)"
    by (simp add: boot_def)
  from exec_mono [OF assms(1) this] have "max_ptr s1 \<le> break s1"
    by simp
  from exec_mono [OF assms(2) this] show ?thesis .
qed

theorem max_ptr_never_decreases_witness:
  "\<exists>s1 s2. exec [Init (\<lambda>_. True)] ([], boot 0x1000 0x100000 (\<lambda>_. 0)) = Some ([], s1)
     \<and> exec [Malloc (\<lambda>_. True) 0x7FFFFFF8, Free 0x100008, Malloc (\<lambda>_. False) 8] ([], s1)
          = Some ([0x100008, 0x100008], s2)
     \<and> max_ptr s1 = 0x100010 \<and> max_ptr s2 = 0x80100000
     \<and> max_ptr s1 \<le> max_ptr s2 \<and> max_ptr s2 \<le> break s2"
proof -
  let ?s1 = "buddy_init (\<lambda>_. True) (boot 0x1000 0x100000 (\<lambda>_. 0))"
  have e1: "exec [Init (\<lambda>_. True)] ([], boot 0x1000 0x100000 (\<lambda>_. 0)) = Some ([], ?s1)"
    by simp
  have m1: "max_ptr ?s1 = 0x100010"
    by (simp add: buddy_init_boot [OF layout_example])
  have "\<exists>s2. exec [Malloc (\<lambda>_. True) 0x7FFFFFF8, Free 0x100008, Malloc (\<lambda>_. False) 8] ([], ?s1)
          = Some ([0x100008, 0x100008], s2) \<and> max_ptr s2 = 0x80100000"
    by (simp add: buddy_init_boot [OF layout_example] run_ops)
  then obtain s2 where e2: "exec [Malloc (\<lambda>_. True) 0x7FFFFFF8, Free 0x100008, Malloc (\<lambda>_. False) 8] ([], ?s1)
          = Some ([0x100008, 0x100008], s2)" and m2: "max_ptr s2 = 0x80100000"
    by blast
  from max_ptr_never_decreases [OF e1 e2] e1 e2 m1 m2 show ?thesis
    by blast
qed

section \<open>The first allocation of a smallest block\<close>

lemma first_small_malloc:
  assumes "layout_ok bp hb" "brk0 (hb + 16)" "brk (hb + 0x40000010)"
    and "request + HEADER_SIZE \<le> 16"
  shows "case buddy_malloc brk request (buddy_init brk0 (boot bp hb m)) of
           Some (r, s') \<Rightarrow>
             r = Inr (hb + 8) \<and> mem s' hb = request \<and> max_ptr s' = hb + 0x40000010
             \<and> base_ptr s' = hb
             \<and> free_list s' 0 []
             \<and> (\<forall>b<28. 1 \<le> b \<longrightarrow>
                   free_list s' b [ptr_for_node s' (push_bit (unat b) 1) b]
                   \<and> ptr_for_node s' (push_bit (unat b) 1) b = hb + push_bit (unat (31 - b)) 1)
         | None \<Rightarrow> False"
proof -
  from assms(4) have r: "(0x80000000 < request + 8) = False" "(16 < request + 8) = False"
    by (auto simp: HEADER_SIZE_def not_less intro: order_trans)
  show ?thesis
    unfolding buddy_init_boot [of bp hb brk0 m, OF assms(1,2)]
    using assms(1,3) r
    by (simp add: word_all_less_numeral word_all_less_one run_ops free_list_def)
qed


text \<open>
  C5. Starting from the state after \<open>buddy_init\<close> (break \<open>hb\<close>, so \<open>BASE = hb\<close>), with
  the host granting the commits asked for, \<open>buddy_malloc(8)\<close> returns \<open>BASE + 8\<close>;
  afterwards the free list of bucket 0 is empty and the free list of every bucket
  \<open>1 \<le> b < BUCKET_COUNT\<close> holds exactly one entry, the right sibling made by the split at
  that level (node \<open>2^b\<close>, the block at \<open>BASE + 2^(31 - b)\<close>).
\<close>

theorem first_malloc_split_cascade:
  assumes "layout_ok bp hb" "brk0 (hb + 16)" "brk (hb + 0x40000010)"
  shows "\<exists>s'. buddy_malloc brk 8 (buddy_init brk0 (boot bp hb m)) = Some (Inr (hb + 8), s')
    \<and> base_ptr s' = hb
    \<and> free_list s' 0 []
    \<and> (\<forall>b. 1 \<le> b \<and> b < BUCKET_COUNT \<longrightarrow>
          free_list s' b [ptr_for_node s' (push_bit (unat b) 1) b]
          \<and> ptr_for_node s' (push_bit (unat b) 1) b = hb + push_bit (unat (31 - b)) 1)"
proof -
  have "(8 :: size_t) + HEADER_SIZE \<le> 16"
    by (simp add: HEADER_SIZE_def)
  from first_small_malloc [where bp = bp and hb = hb and ?brk0.0 = brk0 and brk = brk
      and request = 8 and m = m, OF assms this] show ?thesis
    by (auto simp: BUCKET_COUNT_def MAX_ALLOC_LOG2_def MIN_ALLOC_LOG2_def
          split: option.splits)
qed

theorem first_malloc_split_cascade_witness:
  "layout_ok 0x1000 0x100000
   \<and> (\<exists>s'. buddy_malloc (\<lambda>_. True) 8 (buddy_init (\<lambda>_. True) (boot 0x1000 0x100000 (\<lambda>_. 0)))
           = Some (Inr 0x100008, s')
         \<and> free_list s' 0 [] \<and> free_list s' 1 [0x40100000] \<and> free_list s' 27 [0x100010])"
proof -
  have l: "layout_ok 0x1000 0x100000"
    by (simp add: layout_ok_def)
  from first_malloc_split_cascade [where bp = "0x1000" and hb = "0x100000"
      and ?brk0.0 = "\<lambda>_. True" and brk = "\<lambda>_. True" and m = "\<lambda>_. 0", OF l]
  obtain s' where s': "buddy_malloc (\<lambda>_. True) 8 (buddy_init (\<lambda>_. True) (boot 0x1000 0x100000 (\<lambda>_. 0)))
        = Some (Inr (0x100000 + 8), s')"
    "free_list s' 0 []"
    "\<forall>b. 1 \<le> b \<and> b < BUCKET_COUNT \<longrightarrow>
          free_list s' b [ptr_for_node s' (push_bit (unat b) 1) b]
          \<and> ptr_for_node s' (push_bit (unat b) 1) b = 0x100000 + push_bit (unat (31 - b)) 1"
    by auto
  from s'(3) [rule_format, of 1] s'(3) [rule_format, of 27]
  have "free_list s' 1 [0x40100000]" "free_list s' 27 [0x100010]"
    by (auto simp: BUCKET_COUNT_def MAX_ALLOC_LOG2_def MIN_ALLOC_LOG2_def)
  with l s'(1,2) show ?thesis
    by simp
qed

section \<open>Requests near the top of size_t\<close>

text \<open>Without wrap-around of \<open>request + 8\<close> the size check rejects the request.\<close>

lemma oversize_rejected_without_wrap:
  assumes "2 ^ 31 < unat request + 8" "unat request + 8 < 2 ^ 64"
  shows "buddy_malloc brk request s = Some (Inl TooLarge, s)"
proof -
  from assms(2) have "unat (request + 8) = unat request + 8"
    by (simp add: unat_add_lem [THEN iffD1])
  with assms(1) have "(2 ^ 31 :: size_t) < request + 8"
    by (simp add: word_less_nat_alt)
  then show ?thesis
    by (simp add: buddy_malloc_def HEADER_SIZE_def MAX_ALLOC_def MAX_ALLOC_LOG2_def)
qed

text \<open>
  C3 at \<open>request = 2^64 - 8\<close>: \<open>request + 8\<close> exceeds the arena size, but in \<open>size_t\<close>
  the sum is 0, the size check passes, and \<open>buddy_malloc\<close> hands out a 16-byte block and
  changes the state.
\<close>

theorem malloc_size_check_wraps:
  "2 ^ 31 < unat (0xFFFFFFFFFFFFFFF8 :: size_t) + 8
   \<and> (\<exists>s'. buddy_malloc (\<lambda>_. True) 0xFFFFFFFFFFFFFFF8
            (buddy_init (\<lambda>_. True) (boot 0x1000 0x100000 (\<lambda>_. 0))) = Some (Inr 0x100008, s')
         \<and> returned_ptr (Inr 0x100008) \<noteq> 0
         \<and> mem s' 0x100000 = 0xFFFFFFFFFFFFFFF8
         \<and> max_ptr s' = 0x40100010
         \<and> max_ptr (buddy_init (\<lambda>_. True) (boot 0x1000 0x100000 (\<lambda>_. 0))) = 0x100010)"
proof -
  have l: "layout_ok 0x1000 0x100000"
    by (simp add: layout_ok_def)
  have r: "(0xFFFFFFFFFFFFFFF8 :: size_t) + HEADER_SIZE \<le> 16"
    by (simp add: HEADER_SIZE_def)
  have m: "max_ptr (buddy_init (\<lambda>_. True) (boot 0x1000 0x100000 (\<lambda>_. 0))) = 0x100010"
    by (simp add: buddy_init_boot [where bp = "0x1000" and hb = "0x100000"
          and brk = "\<lambda>_. True" and m = "\<lambda>_. 0", OF l])
  from first_small_malloc [where bp = "0x1000" and hb = "0x100000"
      and ?brk0.0 = "\<lambda>_. True" and brk = "\<lambda>_. True" and m = "\<lambda>_. 0", OF l _ _ r] m
  show ?thesis
    by (auto split: option.splits)
qed

section \<open>A release that stops although the parent's bit is clear\<close>

text \<open>
  C1 at \<open>buddy_init(); p = buddy_malloc(2^28 - 8); buddy_free(p)\<close>. The block is node 7
  of bucket 3, its parent is node 3. \<open>flip_parent_is_split(7)\<close> clears the parent's bit
  (bit 3 of byte 0) and returns the new value of the whole byte, which is 3 because the
  bits of nodes 0 and 1 are still set. The loop of \<open>buddy_free\<close> therefore stops at
  node 7 and the block is put on the free list of bucket 3, although the parent's split
  bit is now clear.
\<close>

theorem free_stops_on_clear_parent_bit:
  "\<exists>s. buddy_malloc (\<lambda>_. True) 0xFFFFFF8 (buddy_init (\<lambda>_. True) (boot 0x1000 0x100000 (\<lambda>_. 0)))
         = Some (Inr 0x100008, s)
     \<and> bucket_for_request (mem s (0x100008 - HEADER_SIZE) + HEADER_SIZE) = Some 3
     \<and> node_for_ptr s (0x100008 - HEADER_SIZE) 3 = 7
     \<and> is_split s 3
     \<and> fst (flip_parent_is_split 7 s) = 3
     \<and> \<not> is_split (snd (flip_parent_is_split 7 s)) 3
     \<and> buddy_free_loop 7 3 s = (7, 3, snd (flip_parent_is_split 7 s))
     \<and> buddy_free 0x100008 s
         = Some (list_push (bucket_ptr s 3) (ptr_for_node s 7 3) (snd (flip_parent_is_split 7 s)))"
  by (simp add: buddy_init_boot [OF layout_example] run_ops is_split_def)

section \<open>buddy_init when the host refuses the commit\<close>

text \<open>
  C8 at \<open>buddy_init()\<close> with a host that refuses to move the break. \<open>buddy_init\<close> does
  not look at the result of \<open>update_max_ptr\<close>: \<open>max_ptr\<close> stays at \<open>base_ptr\<close>, and
  \<open>list_push\<close> still writes the two link words of the root entry at \<open>base_ptr\<close> and
  \<open>base_ptr + 8\<close>, which are not below \<open>max_ptr\<close>.
\<close>

theorem init_links_root_without_commit:
  "mem (boot 0x1000 0x100000 (\<lambda>_. 0)) 0x100000 = 0
   \<and> (\<exists>s. buddy_init (\<lambda>_. False) (boot 0x1000 0x100000 (\<lambda>_. 0)) = s
        \<and> base_ptr s = 0x100000 \<and> max_ptr s = 0x100000 \<and> break s = 0x100000
        \<and> mem s 0x100000 = 0x1000 \<and> mem s 0x100008 = 0x1000)"
  by (simp add: run_ops run_init)

section \<open>Releasing everything that was allocated\<close>

text \<open>
  C2 at \<open>buddy_init(); p = buddy_malloc(8); buddy_free(p)\<close>. The release merges up to
  node 15 of bucket 4 and stops there, because byte 0 of the split-bit array is still
  nonzero after the bit of node 7 is cleared. In the final state the bits of nodes 0, 1
  and 3 are set, bucket 0 is empty and bucket 4 holds two entries; after \<open>buddy_init\<close>
  the array is zero, bucket 0 holds the block at the base and bucket 4 is empty.
\<close>

theorem release_all_leaves_tree_split:
  "\<exists>s. exec [Init (\<lambda>_. True), Malloc (\<lambda>_. True) 8, Free 0x100008]
          ([], boot 0x1000 0x100000 (\<lambda>_. 0)) = Some ([0x100008], s)
     \<and> node_is_split s 0 = 11
     \<and> is_split s 0 \<and> is_split s 1 \<and> is_split s 3
     \<and> free_list s 0 []
     \<and> free_list s 4 [0x8100000, 0x100000]
     \<and> node_is_split (buddy_init (\<lambda>_. True) (boot 0x1000 0x100000 (\<lambda>_. 0))) 0 = 0
     \<and> free_list (buddy_init (\<lambda>_. True) (boot 0x1000 0x100000 (\<lambda>_. 0))) 0 [0x100000]
     \<and> free_list (buddy_init (\<lambda>_. True) (boot 0x1000 0x100000 (\<lambda>_. 0))) 4 []"
  by (simp add: buddy_init_boot [OF layout_example] run_ops is_split_def free_list_def)

section \<open>Allocate, release, allocate again\<close>

text \<open>
  C6 with \<open>n = 2^28 - 8\<close>. Four blocks of bucket 3 and one of bucket 1 are allocated,
  the four are released, and a block of bucket 2 is allocated. Then
  \<open>p = buddy_malloc(n); buddy_free(p); q = buddy_malloc(n)\<close> run back to back: both
  allocations succeed, \<open>p\<close> is \<open>0x10100008\<close> (the seventh result) and \<open>q\<close> is \<open>0x100008\<close>
  (the eighth).
\<close>

theorem malloc_free_malloc_differs:
  "\<exists>s. exec [Init (\<lambda>_. True),
             Malloc (\<lambda>_. True) 0xFFFFFF8, Malloc (\<lambda>_. True) 0xFFFFFF8,
             Malloc (\<lambda>_. True) 0xFFFFFF8, Malloc (\<lambda>_. True) 0xFFFFFF8,
             Malloc (\<lambda>_. True) 0x3FFFFFF8,
             Free 0x100008, Free 0x20100008, Free 0x10100008, Free 0x30100008,
             Malloc (\<lambda>_. True) 0x1FFFFFF8,
             Malloc (\<lambda>_. True) 0xFFFFFF8, Free 0x10100008, Malloc (\<lambda>_. True) 0xFFFFFF8]
          ([], boot 0x1000 0x100000 (\<lambda>_. 0))
        = Some ([0x100008, 0x10100008, 0x20100008, 0x30100008, 0x40100008, 0x20100008,
                 0x10100008, 0x100008], s)"
  by (simp add: buddy_init_boot [OF layout_example] run_ops)

end
